theory Spec2Isabelle
  imports Main
begin

section \<open>Execution model\<close>

text \<open>
  The sources are CUDA device code: a kernel is executed by \<^emph>\<open>blocks\<close> (groups) of
  threads (lanes).  Every thread sees the same code and a \<open>Context\<close> object that tells it
  its block index, its index within the block and the number of threads of the block.
  In the sources \<open>thread_index()\<close>, \<open>block_dimension()\<close> and \<open>block_index()\<close> are
  \<open>unsigned int\<close> values.
\<close>

record thread_context =
  block_index :: nat
  thread_index :: nat
  block_dimension :: nat

text \<open>
  Device memory is a store from addresses to cells.  For the byte-level copy a cell is a
  byte; an object of type \<open>T\<close> occupies \<open>sizeof(T)\<close> consecutive cells.  A pointer (or a
  random-access iterator over contiguous memory) to \<open>T\<close> is the address of the object it
  points to, so \<open>p + k\<close> on a \<open>T*\<close> is the address \<open>p + k * sizeof(T)\<close> and \<open>q - p\<close> is
  the distance in elements.  A typed array whose cells hold whole elements is the
  instance \<open>sizeof(T) = 1\<close>.
\<close>

type_synonym 'b memory = "nat \<Rightarrow> 'b"

definition ptr_add :: "nat \<Rightarrow> nat \<Rightarrow> nat \<Rightarrow> nat" where
  "ptr_add sizeof_T p k = p + k * sizeof_T"

definition ptr_diff :: "nat \<Rightarrow> nat \<Rightarrow> nat \<Rightarrow> nat" where
  "ptr_diff sizeof_T q p = (q - p) div sizeof_T"

text \<open>
  The assignment \<open>*dst = *src\<close> for an element of \<open>sizeof_T\<close> cells: the source object is
  read, then written over the destination object.
\<close>

definition assign_element :: "nat \<Rightarrow> nat \<Rightarrow> nat \<Rightarrow> 'b memory \<Rightarrow> 'b memory" where
  "assign_element sizeof_T dst src mem =
     (\<lambda>a. if dst \<le> a \<and> a < dst + sizeof_T then mem (src + (a - dst)) else mem a)"

text \<open>
  \<open>unsigned int\<close> is 32 bits wide on every CUDA platform; \<open>size_t\<close> and pointers are
  64 bits wide.  A value stored in an \<open>unsigned int\<close> variable or passed to an
  \<open>unsigned int\<close> parameter is reduced modulo \<open>2 ^ 32\<close>.  Sizes, addresses and iterator
  differences are natural numbers (they are bounded by the address space and never wrap
  for buffers that exist).
\<close>

definition to_unsigned_int :: "nat \<Rightarrow> nat" where
  "to_unsigned_int x = x mod 2 ^ 32"

text \<open>
  The threads of a block run concurrently.  Between two barriers a thread touches only
  its own cells of the destination, so the block is modelled by running its lanes one
  after the other in index order; a lane that does not return makes the block not return.
  \<open>run_lanes\<close> runs lanes that return nothing, \<open>run_block\<close> collects what each lane returns.
\<close>

fun run_lanes :: "(nat \<Rightarrow> 'm \<Rightarrow> 'm option) \<Rightarrow> nat list \<Rightarrow> 'm \<Rightarrow> 'm option" where
  "run_lanes f [] m = Some m"
| "run_lanes f (t # ts) m = (case f t m of None \<Rightarrow> None | Some m' \<Rightarrow> run_lanes f ts m')"

fun run_block :: "(nat \<Rightarrow> 'm \<Rightarrow> ('r \<times> 'm) option) \<Rightarrow> nat list \<Rightarrow> 'm \<Rightarrow> ('r list \<times> 'm) option" where
  "run_block f [] m = Some ([], m)"
| "run_block f (t # ts) m =
     (case f t m of
        None \<Rightarrow> None
      | Some (r, m') \<Rightarrow>
          (case run_block f ts m' of
             None \<Rightarrow> None
           | Some (rs, m'') \<Rightarrow> Some (r # rs, m'')))"


section \<open>\<open>thrust/range/end.h\<close>\<close>

text \<open>
  The default overload returns the range's own \<open>end()\<close>.  A range type is modelled by the
  two iterators its \<open>begin()\<close> and \<open>end()\<close> members return.
\<close>

record 'it range_type =
  range_begin :: 'it
  range_end :: 'it

definition end_default :: "'it range_type \<Rightarrow> 'it" where
  "end_default r = range_end r"

text \<open>
  A built-in array \<open>T a[sz]\<close>: the address of \<open>a[0]\<close>, the extent \<open>sz\<close> (a template
  parameter deduced from the array type) and \<open>sizeof(T)\<close>.  In \<open>a + sz\<close> the array decays
  to a pointer to its first element.  The overloads for \<open>T (&)[sz]\<close> and
  \<open>const T (&)[sz]\<close> have the same body.
\<close>

record builtin_array =
  array_address :: nat
  array_extent :: nat
  element_size :: nat

definition element_address :: "builtin_array \<Rightarrow> nat \<Rightarrow> nat" where
  "element_address a i = ptr_add (element_size a) (array_address a) i"

definition end_array :: "builtin_array \<Rightarrow> nat" where
  "end_array a = ptr_add (element_size a) (array_address a) (array_extent a)"

definition end_const_array :: "builtin_array \<Rightarrow> nat" where
  "end_const_array a = ptr_add (element_size a) (array_address a) (array_extent a)"


section \<open>\<open>thrust/detail/backend/cuda/block/copy.h\<close>\<close>

text \<open>\<open>quotient_and_remainder\<close>, on \<open>size_t\<close>; \<open>d * quotient\<close> never exceeds \<open>n\<close>.\<close>

definition quotient_and_remainder :: "nat \<Rightarrow> nat \<Rightarrow> nat \<times> nat" where
  "quotient_and_remainder n d =
     (let quotient = n div d;
          remainder = n - d * quotient
      in (quotient, remainder))"

text \<open>
  The statement
  \<^verbatim>\<open>for(unsigned int i = context.thread_index(); i < bound; i += context.block_dimension())
    dst[i] = src[i];\<close>
  occurs twice in the file: as the body of \<open>aligned_copy\<close> (with \<open>bound\<close> the
  \<open>unsigned int\<close> parameter \<open>num_elements\<close>) and as the misaligned branch of
  \<open>trivial_copy\<close> (with \<open>bound\<close> the \<open>size_t\<close> parameter \<open>num_bytes\<close> and elements of one
  byte).  The counter \<open>i\<close> is an \<open>unsigned int\<close>: the increment wraps modulo \<open>2 ^ 32\<close>.
  The loop need not terminate, so it is a partial function: \<open>None\<close> is a lane that never
  leaves the loop.
\<close>

partial_function (option) strided_copy_loop ::
  "nat \<Rightarrow> nat \<Rightarrow> nat \<Rightarrow> nat \<Rightarrow> nat \<Rightarrow> nat \<Rightarrow> 'b memory \<Rightarrow> 'b memory option" where
  "strided_copy_loop stride sizeof_T dst src bound i mem =
     (if i < bound
      then strided_copy_loop stride sizeof_T dst src bound (to_unsigned_int (i + stride))
             (assign_element sizeof_T (dst + i * sizeof_T) (src + i * sizeof_T) mem)
      else Some mem)"

declare strided_copy_loop.simps [code]

text \<open>\<open>aligned_copy\<close>: the element count is passed as an \<open>unsigned int\<close>.\<close>

definition aligned_copy ::
  "thread_context \<Rightarrow> nat \<Rightarrow> nat \<Rightarrow> nat \<Rightarrow> nat \<Rightarrow> 'b memory \<Rightarrow> 'b memory option" where
  "aligned_copy ctx sizeof_T dst src num_elements mem =
     strided_copy_loop (block_dimension ctx) sizeof_T dst src
       (to_unsigned_int num_elements) (thread_index ctx) mem"

text \<open>
  The wide word: CUDA's \<open>int2\<close> and \<open>uint2\<close> (two 32-bit integers), or \<open>long long\<close> with
  another device compiler; eight bytes in both cases.
\<close>

definition sizeof_int2 :: nat where
  "sizeof_int2 = 8"

definition trivial_copy ::
  "thread_context \<Rightarrow> nat \<Rightarrow> nat \<Rightarrow> nat \<Rightarrow> 'b memory \<Rightarrow> 'b memory option" where
  "trivial_copy ctx destination source num_bytes mem =
     (if destination mod sizeof_int2 \<noteq> 0 \<or> source mod sizeof_int2 \<noteq> 0
      then strided_copy_loop (block_dimension ctx) 1 destination source
             num_bytes (thread_index ctx) mem
      else
        (let num_wide_elements_and_remainder_bytes = quotient_and_remainder num_bytes sizeof_int2
         in case aligned_copy ctx sizeof_int2 destination source
                   (fst num_wide_elements_and_remainder_bytes) mem of
              None \<Rightarrow> None
            | Some mem' \<Rightarrow>
                aligned_copy ctx 1
                  (destination + sizeof_int2 * fst num_wide_elements_and_remainder_bytes)
                  (source + sizeof_int2 * fst num_wide_elements_and_remainder_bytes)
                  (snd num_wide_elements_and_remainder_bytes) mem'))"

text \<open>\<open>detail::dispatch::copy\<close> for \<open>true_type\<close>: the raw-byte path.\<close>

definition dispatch_copy_true_type ::
  "thread_context \<Rightarrow> nat \<Rightarrow> nat \<Rightarrow> nat \<Rightarrow> nat \<Rightarrow> 'b memory \<Rightarrow> (nat \<times> 'b memory) option" where
  "dispatch_copy_true_type ctx sizeof_T first last' result mem =
     (let src = first;
          dst = result;
          n = ptr_diff sizeof_T last' first
      in case trivial_copy ctx dst src (n * sizeof_T) mem of
           None \<Rightarrow> None
         | Some mem' \<Rightarrow> Some (ptr_add sizeof_T result n, mem'))"

text \<open>
  \<open>detail::dispatch::copy\<close> for \<open>false_type\<close>: the per-element path.  The loop advances
  the two iterators themselves (no \<open>unsigned int\<close> counter).
\<close>

partial_function (option) copy_elements_loop ::
  "nat \<Rightarrow> nat \<Rightarrow> nat \<Rightarrow> nat \<Rightarrow> nat \<Rightarrow> 'b memory \<Rightarrow> 'b memory option" where
  "copy_elements_loop stride sizeof_T first last' result mem =
     (if first < last'
      then copy_elements_loop stride sizeof_T (ptr_add sizeof_T first stride) last'
             (ptr_add sizeof_T result stride) (assign_element sizeof_T result first mem)
      else Some mem)"

declare copy_elements_loop.simps [code]

definition dispatch_copy_false_type ::
  "thread_context \<Rightarrow> nat \<Rightarrow> nat \<Rightarrow> nat \<Rightarrow> nat \<Rightarrow> 'b memory \<Rightarrow> (nat \<times> 'b memory) option" where
  "dispatch_copy_false_type ctx sizeof_T first last' result mem =
     (let end_of_output = ptr_add sizeof_T result (ptr_diff sizeof_T last' first);
          first_t = ptr_add sizeof_T first (thread_index ctx);
          result_t = ptr_add sizeof_T result (thread_index ctx)
      in case copy_elements_loop (block_dimension ctx) sizeof_T first_t last' result_t mem of
           None \<Rightarrow> None
         | Some mem' \<Rightarrow> Some (end_of_output, mem'))"

text \<open>
  \<open>block::copy\<close>.  The branch is chosen at compile time: \<open>false_type\<close> when
  \<open>__CUDA_ARCH__ < 200\<close>, otherwise what \<open>is_trivial_copy\<close> says of the two iterator types.
\<close>

definition block_copy ::
  "nat \<Rightarrow> bool \<Rightarrow> thread_context \<Rightarrow> nat \<Rightarrow> nat \<Rightarrow> nat \<Rightarrow> nat \<Rightarrow> 'b memory \<Rightarrow> (nat \<times> 'b memory) option" where
  "block_copy cuda_arch is_trivial_copy ctx sizeof_T first last' result mem =
     (if cuda_arch < 200 then dispatch_copy_false_type ctx sizeof_T first last' result mem
      else if is_trivial_copy then dispatch_copy_true_type ctx sizeof_T first last' result mem
      else dispatch_copy_false_type ctx sizeof_T first last' result mem)"

text \<open>The whole block calling \<open>trivial_copy\<close>, respectively \<open>block::copy\<close>.\<close>

definition group_trivial_copy ::
  "thread_context \<Rightarrow> nat \<Rightarrow> nat \<Rightarrow> nat \<Rightarrow> 'b memory \<Rightarrow> 'b memory option" where
  "group_trivial_copy ctx destination source num_bytes mem =
     run_lanes (\<lambda>t. trivial_copy (ctx\<lparr>thread_index := t\<rparr>) destination source num_bytes)
       [0..<block_dimension ctx] mem"

definition group_copy ::
  "nat \<Rightarrow> bool \<Rightarrow> thread_context \<Rightarrow> nat \<Rightarrow> nat \<Rightarrow> nat \<Rightarrow> nat \<Rightarrow> 'b memory
     \<Rightarrow> (nat list \<times> 'b memory) option" where
  "group_copy cuda_arch is_trivial_copy ctx sizeof_T first last' result mem =
     run_block (\<lambda>t. block_copy cuda_arch is_trivial_copy (ctx\<lparr>thread_index := t\<rparr>)
                      sizeof_T first last' result)
       [0..<block_dimension ctx] mem"


section \<open>\<open>thrust/detail/backend/cuda/copy_if.inl\<close>\<close>

text \<open>
  The input range and the stencil are only read, and Thrust requires that they do not
  overlap the output range; they are stores of their own, apart from the output store.
  A read-only random-access iterator is given by the values it yields: \<open>it k\<close> is
  \<open>dereference(it + k)\<close>.  An output iterator is an address of the output store.

  Counts and offsets are natural numbers.  The flags are 0 or 1, a sum of flags in the
  shared array is at most the number of threads of the block (an \<open>unsigned int\<close>), and a
  sum over the input is at most \<open>last - first\<close>, which \<open>IndexType\<close> represents: no sum
  wraps around.
\<close>

text \<open>\<open>index_range<IndexType>\<close> with its \<open>begin()\<close> and \<open>end()\<close>.\<close>

record index_range =
  interval_begin :: nat
  interval_end :: nat

text \<open>
  A decomposition is the list of its intervals: \<open>decomp.size()\<close> is the length and
  \<open>decomp[i]\<close> the \<open>i\<close>-th interval.

  Modelled from the spec: \<open>uniform_decomposition\<close> and \<open>default_decomposition\<close>
  (\<open>decompose.h\<close>, \<open>default_decomposition.h\<close>) are not among the sources.  The spec says
  that the decomposition "splits an index domain \<open>[0,N)\<close> into contiguous, near-equal
  intervals, one per group", "covering the domain disjointly and completely", and that
  "groups are processed against disjoint, ordered intervals".  The function that builds
  the decomposition is a parameter of \<open>copy_if\<close>; \<open>is_decomposition N decomp\<close> says that
  \<open>decomp\<close> is a non-empty list of consecutive intervals from 0 to \<open>N\<close>.
\<close>

fun contiguous_from :: "nat \<Rightarrow> index_range list \<Rightarrow> nat \<Rightarrow> bool" where
  "contiguous_from b [] e = (b = e)"
| "contiguous_from b (r # rs) e =
     (interval_begin r = b \<and> interval_begin r \<le> interval_end r
      \<and> contiguous_from (interval_end r) rs e)"

definition is_decomposition :: "nat \<Rightarrow> index_range list \<Rightarrow> bool" where
  "is_decomposition N decomp = (decomp \<noteq> [] \<and> contiguous_from 0 decomp N)"

text \<open>
  Modelled from the spec: \<open>predicate_to_integral\<close> (\<open>internal_functional.h\<close>) is not
  among the sources; "transform the stencil into a sequence of integral 0/1 flags via
  the predicate".
\<close>

definition predicate_to_integral :: "('s \<Rightarrow> bool) \<Rightarrow> 's \<Rightarrow> nat" where
  "predicate_to_integral pred x = (if pred x then 1 else 0)"

text \<open>
  Modelled from the spec: \<open>reduce_intervals\<close> (\<open>reduce_intervals.h\<close>) is not among the
  sources; "given a sequence of 0/1 flags and a Decomposition, produces one summed count
  per interval".
\<close>

definition reduce_intervals :: "(nat \<Rightarrow> nat) \<Rightarrow> index_range list \<Rightarrow> nat list" where
  "reduce_intervals flags decomp =
     map (\<lambda>r. sum_list (map flags [interval_begin r ..< interval_end r])) decomp"

text \<open>
  Modelled from the spec: \<open>thrust::inclusive_scan\<close> (\<open>scan.h\<close>) is not among the sources;
  "transform of a sequence into running totals under addition".
\<close>

fun inclusive_scan_from :: "nat \<Rightarrow> nat list \<Rightarrow> nat list" where
  "inclusive_scan_from acc [] = []"
| "inclusive_scan_from acc (x # xs) = (acc + x) # inclusive_scan_from (acc + x) xs"

definition inclusive_scan :: "nat list \<Rightarrow> nat list" where
  "inclusive_scan xs = inclusive_scan_from 0 xs"

text \<open>
  Modelled from the spec: \<open>block::inplace_inclusive_scan\<close> (\<open>block/inclusive_scan.h\<close>) is
  not among the sources; "in-group inclusive prefix sum over a small array sized to the
  group's lane count".  It is called with \<open>thrust::plus\<close>.
\<close>

definition inplace_inclusive_scan :: "nat list \<Rightarrow> nat list" where
  "inplace_inclusive_scan sdata = inclusive_scan sdata"

text \<open>
  The closure's \<open>operator()\<close>, statement by statement.  The variables \<open>base\<close> and \<open>output\<close>
  hold the same value in every thread of the block; \<open>input\<close> and \<open>stencil\<close> are advanced
  by \<open>base + context.thread_index()\<close>, and \<open>predicate\<close> is private to the thread.

  Lines 104 to 108: the output is advanced to the interval's starting position.
\<close>

definition advance_output :: "thread_context \<Rightarrow> nat list \<Rightarrow> nat \<Rightarrow> nat" where
  "advance_output ctx offsets output =
     (if block_index ctx \<noteq> 0 then output + offsets ! (block_index ctx - 1) else output)"

text \<open>Line 114 (a full block) and lines 143 to 146 (the partial block): read data.\<close>

definition read_data :: "thread_context \<Rightarrow> (nat \<Rightarrow> nat) \<Rightarrow> nat \<Rightarrow> nat" where
  "read_data ctx stencil base = stencil (base + thread_index ctx)"

definition read_data_partial ::
  "thread_context \<Rightarrow> (nat \<Rightarrow> nat) \<Rightarrow> index_range \<Rightarrow> nat \<Rightarrow> nat" where
  "read_data_partial ctx stencil range' base =
     (if base + thread_index ctx < interval_end range'
      then stencil (base + thread_index ctx)
      else 0)"

text \<open>
  Lines 122 to 126 and 154 to 158: write data.  \<open>sdata\<close> is the shared array after the
  scan, \<open>predicate\<close> the flag this thread has read.
\<close>

definition write_data ::
  "thread_context \<Rightarrow> (nat \<Rightarrow> 'a) \<Rightarrow> nat \<Rightarrow> nat \<Rightarrow> nat list \<Rightarrow> nat \<Rightarrow> 'a memory \<Rightarrow> 'a memory" where
  "write_data ctx input base output sdata predicate out_mem =
     (if predicate \<noteq> 0
      then out_mem (output + (sdata ! thread_index ctx - 1) := input (base + thread_index ctx))
      else out_mem)"

text \<open>
  The threads of the block, and one pass over a block of the interval: every thread
  stores its flag in \<open>sdata\<close>; barrier; the block scans \<open>sdata\<close>; every thread whose flag
  is set writes its element.  The result is the scanned array and the output store.
\<close>

definition block_threads :: "thread_context \<Rightarrow> thread_context list" where
  "block_threads ctx = map (\<lambda>t. ctx\<lparr>thread_index := t\<rparr>) [0..<block_dimension ctx]"

definition scan_and_write ::
  "thread_context \<Rightarrow> (nat \<Rightarrow> 'a) \<Rightarrow> nat \<Rightarrow> nat \<Rightarrow> nat list \<Rightarrow> 'a memory \<Rightarrow> nat list \<times> 'a memory" where
  "scan_and_write ctx input base output predicates out_mem =
     (let sdata = inplace_inclusive_scan predicates
      in (sdata,
          fold (\<lambda>c. write_data c input base output sdata (predicates ! thread_index c))
            (block_threads ctx) out_mem))"

text \<open>
  Lines 111 to 137: process full blocks.  \<open>CTA_SIZE\<close> is the number of threads of the
  block, \<open>block_dimension ctx\<close>.  With no thread the loop would not end.
\<close>

partial_function (option) process_full_blocks ::
  "thread_context \<Rightarrow> (nat \<Rightarrow> 'a) \<Rightarrow> (nat \<Rightarrow> nat) \<Rightarrow> index_range \<Rightarrow> nat \<Rightarrow> nat \<Rightarrow> 'a memory
     \<Rightarrow> (nat \<times> nat \<times> 'a memory) option" where
  "process_full_blocks ctx input stencil range' base output out_mem =
     (if base + block_dimension ctx \<le> interval_end range'
      then
        (let predicates = map (\<lambda>c. read_data c stencil base) (block_threads ctx);
             scanned = scan_and_write ctx input base output predicates out_mem
         in process_full_blocks ctx input stencil range'
              (base + block_dimension ctx)
              (output + fst scanned ! (block_dimension ctx - 1))
              (snd scanned))
      else Some (base, output, out_mem))"

declare process_full_blocks.simps [code]

text \<open>Lines 140 to 159: process the partially full block at the end of the interval.\<close>

definition process_partial_block ::
  "thread_context \<Rightarrow> (nat \<Rightarrow> 'a) \<Rightarrow> (nat \<Rightarrow> nat) \<Rightarrow> index_range \<Rightarrow> nat \<Rightarrow> nat \<Rightarrow> 'a memory
     \<Rightarrow> 'a memory" where
  "process_partial_block ctx input stencil range' base output out_mem =
     (if base < interval_end range'
      then
        (let predicates = map (\<lambda>c. read_data_partial c stencil range' base) (block_threads ctx)
         in snd (scan_and_write ctx input base output predicates out_mem))
      else out_mem)"

text \<open>\<open>copy_if_intervals_closure::operator()\<close>, for the block of \<open>ctx\<close>.\<close>

definition copy_if_intervals_closure ::
  "(nat \<Rightarrow> 'a) \<Rightarrow> (nat \<Rightarrow> nat) \<Rightarrow> nat list \<Rightarrow> index_range list \<Rightarrow> nat
     \<Rightarrow> thread_context \<Rightarrow> 'a memory \<Rightarrow> 'a memory option" where
  "copy_if_intervals_closure input stencil offsets decomp output ctx out_mem =
     (let range' = decomp ! block_index ctx;
          base = interval_begin range';
          output_g = advance_output ctx offsets output
      in case process_full_blocks ctx input stencil range' base output_g out_mem of
           None \<Rightarrow> None
         | Some (base', output', out_mem') \<Rightarrow>
             Some (process_partial_block ctx input stencil range' base' output' out_mem'))"

text \<open>
  Modelled from the spec: \<open>launch_closure\<close> (\<open>detail/launch_closure.h\<close>) is not among the
  sources.  It "executes that work once per (group, lane) pair and blocks the caller
  until every group has finished", with "no ordering guarantee between groups".  The
  order in which the device runs the blocks is the parameter \<open>schedule\<close>, a list of block
  indices; the threads of one block are run by the closure above.
\<close>

definition launch_closure ::
  "nat list \<Rightarrow> (thread_context \<Rightarrow> 'm \<Rightarrow> 'm option) \<Rightarrow> nat \<Rightarrow> 'm \<Rightarrow> 'm option" where
  "launch_closure schedule closure block_size mem =
     run_lanes (\<lambda>g. closure \<lparr>block_index = g, thread_index = 0, block_dimension = block_size\<rparr>)
       schedule mem"

text \<open>
  \<open>copy_if\<close>.  The result is the returned iterator and the output store.  \<open>schedule k\<close> is
  the order in which a launch of \<open>k\<close> blocks runs them.
\<close>

definition copy_if ::
  "(nat \<Rightarrow> nat list) \<Rightarrow> (nat \<Rightarrow> index_range list) \<Rightarrow> 'a memory \<Rightarrow> nat \<Rightarrow> nat \<Rightarrow> 's memory \<Rightarrow> nat
     \<Rightarrow> 'a memory \<Rightarrow> nat \<Rightarrow> ('s \<Rightarrow> bool) \<Rightarrow> (nat \<times> 'a memory) option" where
  "copy_if schedule default_decomposition input_mem first last' stencil_mem stencil
       out_mem output pred =
     (if first = last' then Some (output, out_mem)
      else
        (let decomp = default_decomposition (last' - first);
             predicate_stencil = (\<lambda>k. predicate_to_integral pred (stencil_mem (stencil + k)));
             block_results = reduce_intervals predicate_stencil decomp;
             block_results = inclusive_scan block_results;
             ThreadsPerBlock = 256;
             closure = copy_if_intervals_closure (\<lambda>k. input_mem (first + k)) predicate_stencil
                         block_results decomp output
         in case launch_closure (schedule (length decomp)) closure ThreadsPerBlock out_mem of
              None \<Rightarrow> None
            | Some out_mem' \<Rightarrow> Some (output + block_results ! (length decomp - 1), out_mem')))"


section \<open>Notions used to state the results\<close>

text \<open>
  \<open>copy_on W dst src mem\<close> is \<open>mem\<close> after the cells at the offsets \<open>W\<close> of the
  destination have received the cells at the same offsets of the source.
\<close>

definition copy_on :: "nat set \<Rightarrow> nat \<Rightarrow> nat \<Rightarrow> 'b memory \<Rightarrow> 'b memory" where
  "copy_on W dst src mem = (\<lambda>a. if dst \<le> a \<and> a - dst \<in> W then mem (src + (a - dst)) else mem a)"

text \<open>
  The cell offsets of the elements \<open>i, i + stride, i + 2 * stride, \<dots>\<close> below \<open>bound\<close>, for
  elements of \<open>sizeof_T\<close> cells.
\<close>

definition lane_offsets :: "nat \<Rightarrow> nat \<Rightarrow> nat \<Rightarrow> nat \<Rightarrow> nat set" where
  "lane_offsets stride sizeof_T bound i =
     {off. off div sizeof_T < bound \<and> i \<le> off div sizeof_T \<and> (off div sizeof_T - i) mod stride = 0}"

definition trivial_copy_offsets :: "nat \<Rightarrow> nat \<Rightarrow> nat \<Rightarrow> nat \<Rightarrow> nat \<Rightarrow> nat set" where
  "trivial_copy_offsets dim destination source num_bytes t =
     (if destination mod 8 \<noteq> 0 \<or> source mod 8 \<noteq> 0
      then lane_offsets dim 1 num_bytes t
      else lane_offsets dim 8 (num_bytes div 8) t
           \<union> (\<lambda>r. 8 * (num_bytes div 8) + r) ` lane_offsets dim 1 (num_bytes mod 8) t)"

text \<open>
  A memory whose cells below address \<open>2 ^ 36\<close> hold 0 and whose other cells hold 1; used
  for the runs on very large buffers.
\<close>

definition marked_memory :: "nat memory" where
  "marked_memory a = (if a < 2 ^ 36 then 0 else 1)"


text \<open>
  \<open>store_list mem a xs\<close> is \<open>mem\<close> with the list \<open>xs\<close> stored from address \<open>a\<close> on;
  \<open>selected input flags lo hi\<close> lists the elements of \<open>input\<close> at the positions of
  \<open>[lo, hi)\<close> whose flag is set, in their order; \<open>count_flags\<close> counts them.
\<close>

definition store_list :: "'a memory \<Rightarrow> nat \<Rightarrow> 'a list \<Rightarrow> 'a memory" where
  "store_list mem a xs = (\<lambda>x. if a \<le> x \<and> x < a + length xs then xs ! (x - a) else mem x)"

definition selected :: "(nat \<Rightarrow> 'a) \<Rightarrow> (nat \<Rightarrow> nat) \<Rightarrow> nat \<Rightarrow> nat \<Rightarrow> 'a list" where
  "selected input flags lo hi = map input (filter (\<lambda>k. flags k \<noteq> 0) [lo..<hi])"

definition count_flags :: "(nat \<Rightarrow> nat) \<Rightarrow> nat \<Rightarrow> nat \<Rightarrow> nat" where
  "count_flags flags lo hi = length (filter (\<lambda>k. flags k \<noteq> 0) [lo..<hi])"

text \<open>Flags that are 0 or 1, as \<open>predicate_to_integral\<close> produces them.\<close>

definition binary_flags :: "(nat \<Rightarrow> nat) \<Rightarrow> bool" where
  "binary_flags flags = (\<forall>k. flags k \<le> 1)"

text \<open>
  The output store when the blocks of \<open>S\<close> have run: the cells of their output regions
  hold the elements of the result, every other cell is as before.
\<close>

definition blocks_done ::
  "'a memory \<Rightarrow> nat \<Rightarrow> 'a list \<Rightarrow> (nat \<Rightarrow> nat) \<Rightarrow> index_range list \<Rightarrow> nat set \<Rightarrow> 'a memory" where
  "blocks_done mem out T flags decomp S =
     (\<lambda>a. if \<exists>g\<in>S. out + count_flags flags 0 (interval_begin (decomp ! g)) \<le> a
                     \<and> a < out + count_flags flags 0 (interval_end (decomp ! g))
          then T ! (a - out) else mem a)"

text \<open>
  The flags the threads of a block hold when the first \<open>m\<close> threads have read the
  stencil at \<open>base\<close> and the others hold 0.
\<close>

definition chunk_flags :: "(nat \<Rightarrow> nat) \<Rightarrow> nat \<Rightarrow> nat \<Rightarrow> nat \<Rightarrow> nat" where
  "chunk_flags flags base m t = (if t < m then flags (base + t) else 0)"

text \<open>
  For the examples: a decomposition into two intervals, and a launch that runs the
  blocks from the last to the first.
\<close>

definition two_intervals :: "nat \<Rightarrow> index_range list" where
  "two_intervals N = [\<lparr>interval_begin = 0, interval_end = N div 2\<rparr>,
                      \<lparr>interval_begin = N div 2, interval_end = N\<rparr>]"

definition last_block_first :: "nat \<Rightarrow> nat list" where
  "last_block_first k = rev [0..<k]"


section \<open>The strided copy loops\<close>

lemma to_unsigned_int_id: "x < 2 ^ 32 \<Longrightarrow> to_unsigned_int x = x"
  by (simp add: to_unsigned_int_def)

lemma copy_on_union:
  assumes "W1 \<subseteq> {..<N}" "W2 \<subseteq> {..<N}" "dst + N \<le> src \<or> src + N \<le> dst"
  shows "copy_on W2 dst src (copy_on W1 dst src mem) = copy_on (W1 \<union> W2) dst src mem"
proof (rule ext)
  fix a
  show "copy_on W2 dst src (copy_on W1 dst src mem) a = copy_on (W1 \<union> W2) dst src mem a"
  proof (cases "dst \<le> a \<and> a - dst \<in> W2")
    case True
    define p where "p = src + (a - dst)"
    have "a - dst < N" using True assms(2) by auto
    then have np: "(dst \<le> p \<and> p - dst \<in> W1) = False"
      using assms(1,3) by (auto simp: p_def)
    have "copy_on W2 dst src (copy_on W1 dst src mem) a = copy_on W1 dst src mem p"
      using True by (simp add: copy_on_def p_def)
    also have "\<dots> = mem p"
      unfolding copy_on_def by (simp only: np if_False)
    also have "\<dots> = copy_on (W1 \<union> W2) dst src mem a"
      using True by (simp add: copy_on_def p_def)
    finally show ?thesis .
  next
    case False
    then show ?thesis by (auto simp: copy_on_def)
  qed
qed

lemma assign_element_copy_on:
  "assign_element sz (dst + i * sz) (src + i * sz) mem = copy_on {i * sz ..< i * sz + sz} dst src mem"
  by (rule ext) (auto simp: assign_element_def copy_on_def)

lemma lane_offsets_step:
  assumes "0 < sz" "0 < stride" "i < bound"
  shows "lane_offsets stride sz bound i = {i * sz ..< i * sz + sz} \<union> lane_offsets stride sz bound (i + stride)"
proof -
  have elem: "\<And>off. (i * sz \<le> off \<and> off < i * sz + sz) = (off div sz = i)"
  proof -
    fix off
    show "(i * sz \<le> off \<and> off < i * sz + sz) = (off div sz = i)"
      using assms(1)
      by (metis add.commute div_nat_eqI less_mult_imp_div_less mult.commute dividend_less_times_div div_times_less_eq_dividend linorder_not_less order_antisym_conv mult_Suc_right Suc_leI le_neq_implies_less times_div_less_eq_dividend)
  qed
  have ar: "\<And>k. i \<le> k \<Longrightarrow> ((k - i) mod stride = 0) = (k = i \<or> (i + stride \<le> k \<and> (k - (i + stride)) mod stride = 0))"
  proof -
    fix k assume ik: "i \<le> k"
    show "((k - i) mod stride = 0) = (k = i \<or> (i + stride \<le> k \<and> (k - (i + stride)) mod stride = 0))"
    proof (cases "k = i")
      case True then show ?thesis by simp
    next
      case False
      show ?thesis
      proof (cases "i + stride \<le> k")
        case True
        then have "k - i = (k - (i + stride)) + stride" by simp
        then have "(k - i) mod stride = (k - (i + stride)) mod stride" by (metis mod_add_self2)
        with True False show ?thesis by simp
      next
        case F2: False
        then have "0 < k - i" "k - i < stride" using ik False by auto
        then have "(k - i) mod stride \<noteq> 0" by simp
        with F2 False show ?thesis by simp
      qed
    qed
  qed
  show ?thesis
  proof (rule set_eqI)
    fix off
    show "(off \<in> lane_offsets stride sz bound i) = (off \<in> {i * sz ..< i * sz + sz} \<union> lane_offsets stride sz bound (i + stride))"
      using elem[of off] ar[of "off div sz"] assms(3)
      by (auto simp: lane_offsets_def)
  qed
qed

lemma lane_offsets_empty: "\<not> i < bound \<Longrightarrow> lane_offsets stride sz bound i = {}"
  by (auto simp: lane_offsets_def)

lemma lane_offsets_bound: "0 < sz \<Longrightarrow> lane_offsets stride sz bound i \<subseteq> {..<bound * sz}"
  by (auto simp: lane_offsets_def less_mult_imp_div_less div_less_iff_less_mult)

lemma copy_on_empty: "copy_on {} dst src mem = mem"
  by (rule ext) (simp add: copy_on_def)

lemma strided_copy_loop_effect:
  assumes "0 < sz" "0 < stride" "bound + stride \<le> 2 ^ 32"
    and "dst + bound * sz \<le> src \<or> src + bound * sz \<le> dst"
  shows "strided_copy_loop stride sz dst src bound i mem
           = Some (copy_on (lane_offsets stride sz bound i) dst src mem)"
proof (induction "bound - i" arbitrary: i mem rule: less_induct)
  case less
  show ?case
  proof (cases "i < bound")
    case True
    then have w: "to_unsigned_int (i + stride) = i + stride"
      using assms(3) by (intro to_unsigned_int_id) simp
    have dec: "bound - (i + stride) < bound - i" using True assms(2) by simp
    have sub1: "{i * sz ..< i * sz + sz} \<subseteq> {..<bound * sz}"
    proof -
      have "Suc i \<le> bound" using True by simp
      then have "Suc i * sz \<le> bound * sz" by (rule mult_le_mono1)
      then show ?thesis by auto
    qed
    have "strided_copy_loop stride sz dst src bound i mem
            = strided_copy_loop stride sz dst src bound (i + stride)
                (assign_element sz (dst + i * sz) (src + i * sz) mem)"
      by (subst strided_copy_loop.simps) (simp add: True w)
    also have "\<dots> = Some (copy_on (lane_offsets stride sz bound (i + stride)) dst src
                         (copy_on {i * sz ..< i * sz + sz} dst src mem))"
      by (simp add: less.hyps[OF dec] assign_element_copy_on)
    also have "\<dots> = Some (copy_on (lane_offsets stride sz bound i) dst src mem)"
      using copy_on_union[OF sub1 lane_offsets_bound[OF assms(1)] assms(4)]
        lane_offsets_step[OF assms(1,2) True]
      by simp
    finally show ?thesis .
  next
    case False
    then show ?thesis
      by (subst strided_copy_loop.simps) (simp add: lane_offsets_empty copy_on_empty)
  qed
qed


lemma copy_on_shift:
  "copy_on W (dst + c) (src + c) mem = copy_on ((\<lambda>r. c + r) ` W) dst src mem"
proof (rule ext)
  fix a
  have "(dst + c \<le> a \<and> a - (dst + c) \<in> W) = (dst \<le> a \<and> a - dst \<in> (\<lambda>r. c + r) ` W)"
  proof
    assume h: "dst + c \<le> a \<and> a - (dst + c) \<in> W"
    then have e: "a - dst = c + (a - (dst + c))" by simp
    have "c + (a - (dst + c)) \<in> (\<lambda>r. c + r) ` W" using h by (intro imageI) simp
    with e h show "dst \<le> a \<and> a - dst \<in> (\<lambda>r. c + r) ` W" by simp
  next
    assume h: "dst \<le> a \<and> a - dst \<in> (\<lambda>r. c + r) ` W"
    then obtain r where r: "r \<in> W" "a - dst = c + r" by auto
    then have "a - (dst + c) = r" "dst + c \<le> a" using h by auto
    with r show "dst + c \<le> a \<and> a - (dst + c) \<in> W" by simp
  qed
  moreover have "dst + c \<le> a \<Longrightarrow> src + c + (a - (dst + c)) = src + (a - dst)" by simp
  ultimately show "copy_on W (dst + c) (src + c) mem a = copy_on ((\<lambda>r. c + r) ` W) dst src mem a"
    by (auto simp: copy_on_def)
qed

lemma quotient_and_remainder_div_mod:
  "quotient_and_remainder n d = (n div d, n mod d)"
  by (simp add: quotient_and_remainder_def Let_def minus_mult_div_eq_mod)

lemma tail_offset_less: "r < n mod 8 \<Longrightarrow> 8 * (n div 8) + r < (n::nat)"
  by (metis mult_div_mod_eq nat_add_left_cancel_less)

lemma lane_offsets_1_bound: "lane_offsets stride 1 bound i \<subseteq> {..<bound}"
  by (auto simp: lane_offsets_def)

lemma trivial_copy_offsets_bound:
  "trivial_copy_offsets dim dst src n t \<subseteq> {..<n}"
proof -
  have a: "lane_offsets dim 8 (n div 8) t \<subseteq> {..<n}"
    by (auto simp: lane_offsets_def)
  have b: "(\<lambda>r. 8 * (n div 8) + r) ` lane_offsets dim 1 (n mod 8) t \<subseteq> {..<n}"
    using lane_offsets_1_bound[of dim "n mod 8" t] tail_offset_less[of _ n] by auto
  show ?thesis
    using a b lane_offsets_1_bound[of dim n t] by (simp add: trivial_copy_offsets_def)
qed

lemma trivial_copy_effect:
  assumes dim: "0 < block_dimension ctx"
    and fit: "n + block_dimension ctx \<le> 2 ^ 32"
    and disj: "dst + n \<le> src \<or> src + n \<le> dst"
  shows "trivial_copy ctx dst src n mem
           = Some (copy_on (trivial_copy_offsets (block_dimension ctx) dst src n (thread_index ctx)) dst src mem)"
proof (cases "dst mod 8 \<noteq> 0 \<or> src mod 8 \<noteq> 0")
  case True
  have "strided_copy_loop (block_dimension ctx) 1 dst src n (thread_index ctx) mem
          = Some (copy_on (lane_offsets (block_dimension ctx) 1 n (thread_index ctx)) dst src mem)"
    using dim fit disj by (intro strided_copy_loop_effect) simp_all
  then show ?thesis
    using True by (simp add: trivial_copy_def trivial_copy_offsets_def sizeof_int2_def)
next
  case False
  define q where "q = n div 8"
  define r where "r = n mod 8"
  define d where "d = block_dimension ctx"
  define t where "t = thread_index ctx"
  have n: "n = 8 * q + r" by (simp add: q_def r_def)
  have qr: "quotient_and_remainder n 8 = (q, r)"
    by (simp add: quotient_and_remainder_div_mod q_def r_def)
  have q32: "to_unsigned_int q = q" "to_unsigned_int r = r"
    using fit n dim by (auto intro!: to_unsigned_int_id)
  have wide: "\<And>m. strided_copy_loop d 8 dst src q t m
                   = Some (copy_on (lane_offsets d 8 q t) dst src m)"
    using dim fit disj n by (intro strided_copy_loop_effect) (auto simp: d_def)
  have tail: "\<And>m. strided_copy_loop d 1 (dst + 8 * q) (src + 8 * q) r t m
                   = Some (copy_on (lane_offsets d 1 r t) (dst + 8 * q) (src + 8 * q) m)"
    using dim fit disj n by (intro strided_copy_loop_effect) (auto simp: d_def)
  have sub1: "lane_offsets d 8 q t \<subseteq> {..<n}"
    using n by (auto simp: lane_offsets_def)
  have sub2: "(\<lambda>x. 8 * q + x) ` lane_offsets d 1 r t \<subseteq> {..<n}"
    using n lane_offsets_1_bound[of d r t] by auto
  have step1: "aligned_copy ctx 8 dst src q mem = Some (copy_on (lane_offsets d 8 q t) dst src mem)"
    by (simp only: aligned_copy_def q32 wide flip: d_def t_def)
  have step2: "\<And>m. aligned_copy ctx 1 (dst + 8 * q) (src + 8 * q) r m
                   = Some (copy_on ((\<lambda>x. 8 * q + x) ` lane_offsets d 1 r t) dst src m)"
    by (simp only: aligned_copy_def q32 tail copy_on_shift flip: d_def t_def)
  have "trivial_copy ctx dst src n mem
          = Some (copy_on ((\<lambda>x. 8 * q + x) ` lane_offsets d 1 r t) dst src
                    (copy_on (lane_offsets d 8 q t) dst src mem))"
    unfolding trivial_copy_def sizeof_int2_def qr Let_def fst_conv snd_conv step1
    using False by (simp only: if_False option.case step2)
  also have "\<dots> = Some (copy_on (lane_offsets d 8 q t \<union> (\<lambda>x. 8 * q + x) ` lane_offsets d 1 r t) dst src mem)"
    using copy_on_union[OF sub1 sub2 disj] by simp
  finally show ?thesis
    using False by (simp add: trivial_copy_offsets_def q_def r_def d_def t_def)
qed

lemma run_lanes_copy_on:
  assumes "\<And>t m. t \<in> set ts \<Longrightarrow> f t m = Some (copy_on (W t) dst src m)"
    and "\<And>t. t \<in> set ts \<Longrightarrow> W t \<subseteq> {..<N}"
    and "dst + N \<le> src \<or> src + N \<le> dst"
  shows "run_lanes f ts mem = Some (copy_on (\<Union>t\<in>set ts. W t) dst src mem)"
  using assms(1,2)
proof (induction ts arbitrary: mem)
  case Nil
  then show ?case by (simp add: copy_on_empty)
next
  case (Cons t ts)
  have s1: "W t \<subseteq> {..<N}" using Cons.prems(2) by simp
  have s2: "(\<Union>t\<in>set ts. W t) \<subseteq> {..<N}" using Cons.prems(2) by auto
  have "run_lanes f (t # ts) mem = run_lanes f ts (copy_on (W t) dst src mem)"
    using Cons.prems(1)[of t mem] by simp
  also have "\<dots> = Some (copy_on (\<Union>t\<in>set ts. W t) dst src (copy_on (W t) dst src mem))"
    using Cons.prems by (intro Cons.IH) auto
  also have "\<dots> = Some (copy_on (W t \<union> (\<Union>t\<in>set ts. W t)) dst src mem)"
    using copy_on_union[OF s1 s2 assms(3)] by simp
  finally show ?case by simp
qed

lemma sub_mod_self: "((k::nat) - k mod d) mod d = 0"
  by (simp add: minus_mod_eq_mult_div)

lemma lane_offsets_cover:
  assumes "0 < sz" "0 < dim"
  shows "(\<Union>t\<in>{0..<dim}. lane_offsets dim sz bound t) = {..<bound * sz}"
proof (rule set_eqI)
  fix off
  show "(off \<in> (\<Union>t\<in>{0..<dim}. lane_offsets dim sz bound t)) = (off \<in> {..<bound * sz})"
  proof
    assume "off \<in> (\<Union>t\<in>{0..<dim}. lane_offsets dim sz bound t)"
    then show "off \<in> {..<bound * sz}" using lane_offsets_bound[OF assms(1)] by blast
  next
    assume "off \<in> {..<bound * sz}"
    then have k: "off div sz < bound" using assms(1) by (simp add: less_mult_imp_div_less)
    have "(off div sz) mod dim < dim" using assms(2) by simp
    moreover have "off \<in> lane_offsets dim sz bound ((off div sz) mod dim)"
      using k by (simp add: lane_offsets_def sub_mod_self)
    ultimately show "off \<in> (\<Union>t\<in>{0..<dim}. lane_offsets dim sz bound t)" by auto
  qed
qed

lemma trivial_copy_offsets_cover:
  assumes "0 < dim"
  shows "(\<Union>t\<in>{0..<dim}. trivial_copy_offsets dim dst src n t) = {..<n}"
proof (cases "dst mod 8 \<noteq> 0 \<or> src mod 8 \<noteq> 0")
  case True
  then show ?thesis
    using lane_offsets_cover[of 1 dim n] assms by (simp add: trivial_copy_offsets_def)
next
  case False
  have w: "(\<Union>t\<in>{0..<dim}. lane_offsets dim 8 (n div 8) t) = {..<n div 8 * 8}"
    using lane_offsets_cover[of 8 dim "n div 8"] assms by simp
  have r: "(\<Union>t\<in>{0..<dim}. lane_offsets dim 1 (n mod 8) t) = {..<n mod 8}"
    using lane_offsets_cover[of 1 dim "n mod 8"] assms by simp
  have "(\<Union>t\<in>{0..<dim}. trivial_copy_offsets dim dst src n t)
          = (\<Union>t\<in>{0..<dim}. lane_offsets dim 8 (n div 8) t)
            \<union> (\<lambda>r. 8 * (n div 8) + r) ` (\<Union>t\<in>{0..<dim}. lane_offsets dim 1 (n mod 8) t)"
    using False by (auto simp: trivial_copy_offsets_def)
  also have "\<dots> = {..<n div 8 * 8} \<union> (\<lambda>r. 8 * (n div 8) + r) ` {..<n mod 8}"
    by (simp only: w r)
  also have "\<dots> = {..<n}"
  proof (rule set_eqI)
    fix x
    show "(x \<in> {..<n div 8 * 8} \<union> (\<lambda>r. 8 * (n div 8) + r) ` {..<n mod 8}) = (x \<in> {..<n})"
    proof
      assume "x \<in> {..<n div 8 * 8} \<union> (\<lambda>r. 8 * (n div 8) + r) ` {..<n mod 8}"
      then show "x \<in> {..<n}" using tail_offset_less[of _ n] by auto
    next
      assume x: "x \<in> {..<n}"
      show "x \<in> {..<n div 8 * 8} \<union> (\<lambda>r. 8 * (n div 8) + r) ` {..<n mod 8}"
      proof (cases "x < n div 8 * 8")
        case True then show ?thesis by simp
      next
        case False
        define Q R where "Q = n div 8" and "R = n mod 8"
        have "n = 8 * Q + R" by (simp add: Q_def R_def)
        moreover have "\<not> x < Q * 8" "x < n" using False x by (simp_all add: Q_def)
        ultimately have "x = 8 * Q + (x - 8 * Q)" "x - 8 * Q < R" by linarith+
        then have "x = 8 * (n div 8) + (x - 8 * (n div 8))" "x - 8 * (n div 8) < n mod 8"
          by (simp_all only: Q_def R_def)
        then show ?thesis by (metis UnI2 imageI lessThan_iff)
      qed
    qed
  qed
  finally show ?thesis .
qed

lemma group_trivial_copy_effect:
  assumes dim: "0 < block_dimension ctx"
    and fit: "n + block_dimension ctx \<le> 2 ^ 32"
    and disj: "dst + n \<le> src \<or> src + n \<le> dst"
  shows "group_trivial_copy ctx dst src n mem = Some (copy_on {..<n} dst src mem)"
proof -
  define dim where "dim = block_dimension ctx"
  have "group_trivial_copy ctx dst src n mem
          = Some (copy_on (\<Union>t\<in>set [0..<dim]. trivial_copy_offsets dim dst src n t) dst src mem)"
    unfolding group_trivial_copy_def dim_def[symmetric]
  proof (rule run_lanes_copy_on[where N = n])
    fix t m
    show "trivial_copy (ctx\<lparr>thread_index := t\<rparr>) dst src n m
            = Some (copy_on (trivial_copy_offsets dim dst src n t) dst src m)"
      using trivial_copy_effect[of "ctx\<lparr>thread_index := t\<rparr>" n dst src m]
        dim fit disj by (simp add: dim_def)
  next
    fix t show "trivial_copy_offsets dim dst src n t \<subseteq> {..<n}"
      by (rule trivial_copy_offsets_bound)
  next
    show "dst + n \<le> src \<or> src + n \<le> dst" by (rule disj)
  qed
  then show ?thesis
    using trivial_copy_offsets_cover[of dim dst src n] dim by (simp add: dim_def)
qed

lemma copy_on_lessThan_map:
  "map (copy_on {..<n} dst src mem) [dst ..< dst + n] = map mem [src ..< src + n]"
  by (rule nth_equalityI) (simp_all add: copy_on_def)

lemma copy_on_lessThan_frame:
  "a < dst \<or> dst + n \<le> a \<Longrightarrow> copy_on {..<n} dst src mem a = mem a"
  by (auto simp: copy_on_def)

lemma copy_elements_loop_effect:
  assumes sz: "0 < sz" and stride: "0 < stride"
    and disj: "r0 + n * sz \<le> f0 \<or> f0 + n * sz \<le> r0"
  shows "copy_elements_loop stride sz (ptr_add sz f0 i) (ptr_add sz f0 n) (ptr_add sz r0 i) mem
           = Some (copy_on (lane_offsets stride sz n i) r0 f0 mem)"
proof (induction "n - i" arbitrary: i mem rule: less_induct)
  case less
  have cond: "(ptr_add sz f0 i < ptr_add sz f0 n) = (i < n)"
    using sz by (simp add: ptr_add_def)
  show ?case
  proof (cases "i < n")
    case True
    have dec: "n - (i + stride) < n - i" using True stride by simp
    have adv: "\<And>p. ptr_add sz (ptr_add sz p i) stride = ptr_add sz p (i + stride)"
      by (simp add: ptr_add_def algebra_simps)
    have e: "assign_element sz (ptr_add sz r0 i) (ptr_add sz f0 i) mem
               = copy_on {i * sz ..< i * sz + sz} r0 f0 mem"
      by (simp add: ptr_add_def assign_element_copy_on)
    have sub1: "{i * sz ..< i * sz + sz} \<subseteq> {..<n * sz}"
    proof -
      have "Suc i \<le> n" using True by simp
      then have "Suc i * sz \<le> n * sz" by (rule mult_le_mono1)
      then show ?thesis by auto
    qed
    have "copy_elements_loop stride sz (ptr_add sz f0 i) (ptr_add sz f0 n) (ptr_add sz r0 i) mem
            = copy_elements_loop stride sz (ptr_add sz f0 (i + stride)) (ptr_add sz f0 n)
                (ptr_add sz r0 (i + stride))
                (assign_element sz (ptr_add sz r0 i) (ptr_add sz f0 i) mem)"
      by (subst copy_elements_loop.simps) (simp add: cond True adv)
    also have "\<dots> = Some (copy_on (lane_offsets stride sz n (i + stride)) r0 f0
                         (copy_on {i * sz ..< i * sz + sz} r0 f0 mem))"
      by (simp only: e less.hyps[OF dec])
    also have "\<dots> = Some (copy_on (lane_offsets stride sz n i) r0 f0 mem)"
      using copy_on_union[OF sub1 lane_offsets_bound[OF sz] disj]
        lane_offsets_step[OF sz stride True]
      by simp
    finally show ?thesis .
  next
    case False
    then show ?thesis
      by (subst copy_elements_loop.simps) (simp add: cond lane_offsets_empty copy_on_empty)
  qed
qed

lemma ptr_diff_ptr_add: "0 < sz \<Longrightarrow> ptr_diff sz (ptr_add sz p n) p = n"
  by (simp add: ptr_diff_def ptr_add_def)

lemma dispatch_copy_false_type_effect:
  assumes sz: "0 < sz" and dim: "0 < block_dimension ctx"
    and disj: "result + n * sz \<le> first \<or> first + n * sz \<le> result"
  shows "dispatch_copy_false_type ctx sz first (ptr_add sz first n) result mem
           = Some (ptr_add sz result n,
                   copy_on (lane_offsets (block_dimension ctx) sz n (thread_index ctx)) result first mem)"
  unfolding dispatch_copy_false_type_def Let_def ptr_diff_ptr_add[OF sz]
  by (simp only: copy_elements_loop_effect[OF sz dim disj] option.case)

lemma dispatch_copy_true_type_effect:
  assumes sz: "0 < sz" and dim: "0 < block_dimension ctx"
    and fit: "n * sz + block_dimension ctx \<le> 2 ^ 32"
    and disj: "result + n * sz \<le> first \<or> first + n * sz \<le> result"
  shows "dispatch_copy_true_type ctx sz first (ptr_add sz first n) result mem
           = Some (ptr_add sz result n,
                   copy_on (trivial_copy_offsets (block_dimension ctx) result first (n * sz)
                              (thread_index ctx)) result first mem)"
  unfolding dispatch_copy_true_type_def Let_def ptr_diff_ptr_add[OF sz]
  by (simp only: trivial_copy_effect[OF dim fit disj] option.case)

lemma run_block_copy_on:
  assumes "\<And>t m. t \<in> set ts \<Longrightarrow> f t m = Some (r, copy_on (W t) dst src m)"
    and "\<And>t. t \<in> set ts \<Longrightarrow> W t \<subseteq> {..<N}"
    and "dst + N \<le> src \<or> src + N \<le> dst"
  shows "run_block f ts mem
           = Some (replicate (length ts) r, copy_on (\<Union>t\<in>set ts. W t) dst src mem)"
  using assms(1,2)
proof (induction ts arbitrary: mem)
  case Nil
  then show ?case by (simp add: copy_on_empty)
next
  case (Cons t ts)
  have s1: "W t \<subseteq> {..<N}" using Cons.prems(2) by simp
  have s2: "(\<Union>t\<in>set ts. W t) \<subseteq> {..<N}" using Cons.prems(2) by auto
  have ih: "run_block f ts (copy_on (W t) dst src mem)
              = Some (replicate (length ts) r,
                      copy_on (\<Union>t\<in>set ts. W t) dst src (copy_on (W t) dst src mem))"
    using Cons.prems by (intro Cons.IH) auto
  have "run_block f (t # ts) mem
          = Some (r # replicate (length ts) r,
                  copy_on (\<Union>t\<in>set ts. W t) dst src (copy_on (W t) dst src mem))"
    using Cons.prems(1)[of t mem] ih by simp
  also have "\<dots> = Some (r # replicate (length ts) r,
                         copy_on (W t \<union> (\<Union>t\<in>set ts. W t)) dst src mem)"
    using copy_on_union[OF s1 s2 assms(3)] by simp
  finally show ?case by simp
qed

lemma group_copy_effect:
  assumes sz: "0 < sz" and dim: "0 < block_dimension ctx"
    and fit: "is_trivial_copy \<and> 200 \<le> cuda_arch \<longrightarrow> n * sz + block_dimension ctx \<le> 2 ^ 32"
    and disj: "result + n * sz \<le> first \<or> first + n * sz \<le> result"
  shows "group_copy cuda_arch is_trivial_copy ctx sz first (ptr_add sz first n) result mem
           = Some (replicate (block_dimension ctx) (ptr_add sz result n),
                   copy_on {..<n * sz} result first mem)"
proof (cases "is_trivial_copy \<and> 200 \<le> cuda_arch")
  case True
  define d where "d = block_dimension ctx"
  have "group_copy cuda_arch is_trivial_copy ctx sz first (ptr_add sz first n) result mem
          = Some (replicate (length [0..<d]) (ptr_add sz result n),
                  copy_on (\<Union>t\<in>set [0..<d]. trivial_copy_offsets d result first (n * sz) t)
                    result first mem)"
    unfolding group_copy_def d_def[symmetric]
  proof (rule run_block_copy_on[where N = "n * sz"])
    fix t m
    show "block_copy cuda_arch is_trivial_copy (ctx\<lparr>thread_index := t\<rparr>) sz first
            (ptr_add sz first n) result m
            = Some (ptr_add sz result n,
                    copy_on (trivial_copy_offsets d result first (n * sz) t) result first m)"
      using dispatch_copy_true_type_effect[of sz "ctx\<lparr>thread_index := t\<rparr>" n result first m]
        True sz dim fit disj
      by (simp add: block_copy_def d_def)
  next
    fix t show "trivial_copy_offsets d result first (n * sz) t \<subseteq> {..<n * sz}"
      by (rule trivial_copy_offsets_bound)
  next
    show "result + n * sz \<le> first \<or> first + n * sz \<le> result" by (rule disj)
  qed
  then show ?thesis
    using trivial_copy_offsets_cover[of d result first "n * sz"] dim by (simp add: d_def)
next
  case False
  define d where "d = block_dimension ctx"
  have "group_copy cuda_arch is_trivial_copy ctx sz first (ptr_add sz first n) result mem
          = Some (replicate (length [0..<d]) (ptr_add sz result n),
                  copy_on (\<Union>t\<in>set [0..<d]. lane_offsets d sz n t) result first mem)"
    unfolding group_copy_def d_def[symmetric]
  proof (rule run_block_copy_on[where N = "n * sz"])
    fix t m
    show "block_copy cuda_arch is_trivial_copy (ctx\<lparr>thread_index := t\<rparr>) sz first
            (ptr_add sz first n) result m
            = Some (ptr_add sz result n, copy_on (lane_offsets d sz n t) result first m)"
      using dispatch_copy_false_type_effect[of sz "ctx\<lparr>thread_index := t\<rparr>" result n first m]
        False sz dim disj
      by (auto simp: block_copy_def d_def)
  next
    fix t show "lane_offsets d sz n t \<subseteq> {..<n * sz}"
      by (rule lane_offsets_bound[OF sz])
  next
    show "result + n * sz \<le> first \<or> first + n * sz \<le> result" by (rule disj)
  qed
  then show ?thesis
    using lane_offsets_cover[OF sz, of d n] dim by (simp add: d_def)
qed

lemma block_copy_fast:
  "200 \<le> cuda_arch \<Longrightarrow> block_copy cuda_arch True = dispatch_copy_true_type"
  by (intro ext) (simp add: block_copy_def)

lemma block_copy_generic:
  "block_copy cuda_arch False = dispatch_copy_false_type"
  by (intro ext) (simp add: block_copy_def)

text \<open>Runs on very large buffers: the 32-bit counters.\<close>

lemma strided_copy_loop_zero: "strided_copy_loop stride sz dst src 0 i mem = Some mem"
  by (subst strided_copy_loop.simps) simp

lemma strided_copy_loop_returns:
  assumes "strided_copy_loop stride sz dst src bound i mem = Some y"
  shows "bound < 2 ^ 32 \<or> 2 ^ 32 \<le> i"
proof (rule strided_copy_loop.raw_induct
    [where P = "\<lambda>stride sz dst src bound i mem y. bound < 2 ^ 32 \<or> 2 ^ 32 \<le> i", OF _ assms])
  fix f :: "nat \<Rightarrow> nat \<Rightarrow> nat \<Rightarrow> nat \<Rightarrow> nat \<Rightarrow> nat \<Rightarrow> 'a memory \<Rightarrow> 'a memory option"
  fix stride sz dst src bound i mem y
  assume IH: "\<And>stride sz dst src bound i mem y.
                f stride sz dst src bound i mem = Some y \<Longrightarrow> bound < 2 ^ 32 \<or> 2 ^ 32 \<le> i"
  assume step: "(if i < bound
                 then f stride sz dst src bound (to_unsigned_int (i + stride))
                        (assign_element sz (dst + i * sz) (src + i * sz) mem)
                 else Some mem) = Some y"
  show "bound < 2 ^ 32 \<or> 2 ^ 32 \<le> i"
  proof (cases "i < bound")
    case True
    with step have "f stride sz dst src bound (to_unsigned_int (i + stride))
                      (assign_element sz (dst + i * sz) (src + i * sz) mem) = Some y"
      by simp
    from IH[OF this] have "bound < 2 ^ 32 \<or> 2 ^ 32 \<le> to_unsigned_int (i + stride)" .
    moreover have "to_unsigned_int (i + stride) < 2 ^ 32" by (simp add: to_unsigned_int_def)
    ultimately show ?thesis by auto
  next
    case False
    then show ?thesis by auto
  qed
qed

lemma strided_copy_loop_never:
  assumes "2 ^ 32 \<le> bound" "i < 2 ^ 32"
  shows "strided_copy_loop stride sz dst src bound i mem = None"
proof (cases "strided_copy_loop stride sz dst src bound i mem")
  case None
  then show ?thesis .
next
  case (Some y)
  from strided_copy_loop_returns[OF this] assms show ?thesis by simp
qed

lemma trivial_copy_narrowed:
  assumes "dst mod 8 = 0" "src mod 8 = 0"
  shows "trivial_copy ctx dst src (2 ^ 35) mem = Some mem"
proof -
  have "quotient_and_remainder (2 ^ 35) 8 = (2 ^ 32, 0)"
    by (simp add: quotient_and_remainder_div_mod)
  moreover have "to_unsigned_int (2 ^ 32) = 0" "to_unsigned_int 0 = 0"
    by (simp_all add: to_unsigned_int_def)
  ultimately show ?thesis
    using assms
    by (simp add: trivial_copy_def sizeof_int2_def aligned_copy_def strided_copy_loop_zero)
qed

lemma run_lanes_unchanged:
  "(\<And>t m. f t m = Some m) \<Longrightarrow> run_lanes f ts mem = Some mem"
  by (induction ts) simp_all

lemma run_block_unchanged:
  "(\<And>t m. f t m = Some (r, m)) \<Longrightarrow> run_block f ts mem = Some (replicate (length ts) r, mem)"
  by (induction ts) simp_all

lemma group_trivial_copy_narrowed:
  assumes "dst mod 8 = 0" "src mod 8 = 0"
  shows "group_trivial_copy ctx dst src (2 ^ 35) mem = Some mem"
  unfolding group_trivial_copy_def
  by (rule run_lanes_unchanged) (rule trivial_copy_narrowed[OF assms])

lemma group_copy_narrowed:
  assumes "result mod 8 = 0" "first mod 8 = 0"
  shows "group_copy 200 True ctx 8 first (first + 2 ^ 35) result mem
           = Some (replicate (block_dimension ctx) (result + 2 ^ 35), mem)"
proof -
  have n: "ptr_diff 8 (first + 2 ^ 35) first * 8 = 2 ^ 35"
    by (simp add: ptr_diff_def)
  have r: "ptr_add 8 result (ptr_diff 8 (first + 2 ^ 35) first) = result + 2 ^ 35"
    by (simp add: ptr_diff_def ptr_add_def)
  have lane: "\<And>t m. block_copy 200 True (ctx\<lparr>thread_index := t\<rparr>) 8 first (first + 2 ^ 35) result m
                 = Some (result + 2 ^ 35, m)"
    unfolding block_copy_def dispatch_copy_true_type_def Let_def n r
    by (simp only: trivial_copy_narrowed[OF assms]) simp
  have "run_block (\<lambda>t. block_copy 200 True (ctx\<lparr>thread_index := t\<rparr>) 8 first (first + 2 ^ 35) result)
          [0..<block_dimension ctx] mem
        = Some (replicate (length [0..<block_dimension ctx]) (result + 2 ^ 35), mem)"
    by (rule run_block_unchanged) (rule lane)
  then show ?thesis
    unfolding group_copy_def by simp
qed


section \<open>Scans and counts\<close>

lemma length_inclusive_scan_from: "length (inclusive_scan_from acc xs) = length xs"
  by (induction xs arbitrary: acc) simp_all

lemma inclusive_scan_from_nth:
  "i < length xs \<Longrightarrow> inclusive_scan_from acc xs ! i = acc + sum_list (take (Suc i) xs)"
proof (induction xs arbitrary: acc i)
  case Nil
  then show ?case by simp
next
  case (Cons x xs)
  then show ?case by (cases i) simp_all
qed

lemma inclusive_scan_nth:
  "i < length xs \<Longrightarrow> inclusive_scan xs ! i = sum_list (take (Suc i) xs)"
  by (simp add: inclusive_scan_def inclusive_scan_from_nth)

lemma length_selected: "length (selected input flags lo hi) = count_flags flags lo hi"
  by (simp add: selected_def count_flags_def)

lemma sum_list_flags:
  assumes "binary_flags flags"
  shows "sum_list (map flags xs) = length (filter (\<lambda>k. flags k \<noteq> 0) xs)"
proof (induction xs)
  case Nil
  then show ?case by simp
next
  case (Cons x xs)
  have "flags x = 0 \<or> flags x = 1" using assms by (auto simp: binary_flags_def le_Suc_eq)
  with Cons show ?case by auto
qed

lemma selected_append:
  "lo \<le> mid \<Longrightarrow> mid \<le> hi \<Longrightarrow>
     selected input flags lo mid @ selected input flags mid hi = selected input flags lo hi"
proof -
  assume "lo \<le> mid" "mid \<le> hi"
  then have "[lo..<hi] = [lo..<mid] @ [mid..<hi]"
    by (metis le_Suc_ex upt_add_eq_append)
  then show ?thesis by (simp add: selected_def)
qed

lemma count_flags_append:
  "lo \<le> mid \<Longrightarrow> mid \<le> hi \<Longrightarrow>
     count_flags flags lo mid + count_flags flags mid hi = count_flags flags lo hi"
  using selected_append[of lo mid hi "\<lambda>k. k" flags]
  by (metis length_append length_selected)

lemma selected_Suc:
  "lo \<le> k \<Longrightarrow> selected input flags lo (Suc k)
     = selected input flags lo k @ (if flags k \<noteq> 0 then [input k] else [])"
  by (simp add: selected_def)

lemma selected_empty: "hi \<le> lo \<Longrightarrow> selected input flags lo hi = []"
  by (simp add: selected_def)

lemma store_list_Nil: "store_list mem a [] = mem"
  by (rule ext) (auto simp: store_list_def)

lemma store_list_snoc:
  "(store_list mem a xs) (a + length xs := v) = store_list mem a (xs @ [v])"
  by (rule ext) (auto simp: store_list_def nth_append)

lemma store_list_append:
  "store_list (store_list mem a xs) (a + length xs) ys = store_list mem a (xs @ ys)"
  by (rule ext) (auto simp: store_list_def nth_append)

section \<open>One pass over a block of the interval\<close>

lemma sum_chunk_flags:
  assumes "binary_flags flags"
  shows "sum_list (map (chunk_flags flags base m) [0..<k]) = count_flags flags base (base + min k m)"
proof (induction k)
  case 0
  then show ?case by (simp add: count_flags_def)
next
  case (Suc k)
  show ?case
  proof (cases "k < m")
    case True
    then have mn: "min (Suc k) m = Suc k" "min k m = k" by simp_all
    have "flags (base + k) = 0 \<or> flags (base + k) = 1"
      using assms by (auto simp: binary_flags_def le_Suc_eq)
    then show ?thesis
      using Suc True by (auto simp: mn chunk_flags_def count_flags_def)
  next
    case False
    then have mn: "min (Suc k) m = m" "min k m = m" by simp_all
    show ?thesis using Suc False by (simp add: mn chunk_flags_def)
  qed
qed

lemma block_threads_fold:
  "fold f (block_threads ctx) mem
     = fold (\<lambda>t. f (ctx\<lparr>thread_index := t\<rparr>)) [0..<block_dimension ctx] mem"
  by (simp add: block_threads_def fold_map comp_def)

lemma write_fold:
  assumes bin: "binary_flags flags"
    and m: "m \<le> d"
    and k: "k \<le> d"
  shows "fold (\<lambda>t. write_data (ctx\<lparr>thread_index := t\<rparr>) input base out
                     (inplace_inclusive_scan (map (chunk_flags flags base m) [0..<d]))
                     (map (chunk_flags flags base m) [0..<d] ! t))
           [0..<k] mem
         = store_list mem out (selected input flags base (base + min k m))"
  using k
proof (induction k)
  case 0
  then show ?case by (simp add: selected_empty store_list_Nil)
next
  case (Suc k)
  define preds where "preds = map (chunk_flags flags base m) [0..<d]"
  define sdata where "sdata = inplace_inclusive_scan preds"
  define W where "W = (\<lambda>t. write_data (ctx\<lparr>thread_index := t\<rparr>) input base out sdata (preds ! t))"
  define xs where "xs = selected input flags base (base + min k m)"
  have kd: "k < d" using Suc.prems by simp
  have pk: "preds ! k = chunk_flags flags base m k" using kd by (simp add: preds_def)
  have "take (Suc k) preds = map (chunk_flags flags base m) [0..<Suc k]"
    using kd by (simp add: preds_def take_map min_def del: upt_Suc)
  then have sk: "sdata ! k = count_flags flags base (base + min (Suc k) m)"
    using kd
    by (simp add: sdata_def preds_def inplace_inclusive_scan_def inclusive_scan_nth
        sum_chunk_flags[OF bin] del: upt_Suc)
  have ih: "fold W [0..<k] mem = store_list mem out xs"
    using Suc unfolding W_def sdata_def preds_def xs_def by simp
  have st: "fold W [0..<Suc k] mem = W k (store_list mem out xs)"
    by (simp add: ih)
  have "W k (store_list mem out xs)
          = store_list mem out (selected input flags base (base + min (Suc k) m))"
  proof (cases "k < m \<and> flags (base + k) \<noteq> 0")
    case True
    then have mn: "min (Suc k) m = Suc k" "min k m = k" by simp_all
    have cnt: "count_flags flags base (Suc (base + k)) = Suc (length xs)"
      using True by (simp add: count_flags_def xs_def mn selected_def)
    have p: "preds ! k \<noteq> 0" using True by (simp add: pk chunk_flags_def)
    have "W k (store_list mem out xs) = (store_list mem out xs) (out + length xs := input (base + k))"
      unfolding W_def write_data_def using p sk by (simp add: mn cnt)
    also have "\<dots> = store_list mem out (xs @ [input (base + k)])"
      by (rule store_list_snoc)
    also have "xs @ [input (base + k)] = selected input flags base (base + min (Suc k) m)"
      using True by (simp add: xs_def mn selected_Suc)
    finally show ?thesis .
  next
    case False
    then have p: "preds ! k = 0" by (auto simp: pk chunk_flags_def)
    have "selected input flags base (base + min (Suc k) m) = xs"
    proof (cases "k < m")
      case True
      then have "min (Suc k) m = Suc k" "min k m = k" by simp_all
      with False True show ?thesis by (simp add: xs_def selected_Suc)
    next
      case F: False
      then have "min (Suc k) m = m" "min k m = m" by simp_all
      then show ?thesis by (simp add: xs_def)
    qed
    then show ?thesis
      unfolding W_def write_data_def using p by simp
  qed
  with st have "fold W [0..<Suc k] mem
                  = store_list mem out (selected input flags base (base + min (Suc k) m))"
    by simp
  then show ?case
    unfolding W_def sdata_def preds_def .
qed

lemma scan_and_write_effect:
  assumes bin: "binary_flags flags"
    and m: "m \<le> block_dimension ctx"
    and d: "0 < block_dimension ctx"
  shows "scan_and_write ctx input base out
           (map (chunk_flags flags base m) [0..<block_dimension ctx]) mem
         = (inplace_inclusive_scan (map (chunk_flags flags base m) [0..<block_dimension ctx]),
            store_list mem out (selected input flags base (base + m)))"
    and "inplace_inclusive_scan (map (chunk_flags flags base m) [0..<block_dimension ctx])
           ! (block_dimension ctx - 1) = count_flags flags base (base + m)"
proof -
  let ?d = "block_dimension ctx"
  let ?preds = "map (chunk_flags flags base m) [0..<?d]"
  have "fold (\<lambda>c. write_data c input base out (inplace_inclusive_scan ?preds)
                     (?preds ! thread_index c)) (block_threads ctx) mem
          = store_list mem out (selected input flags base (base + min ?d m))"
    using write_fold[OF bin m order_refl, where ctx = ctx and input = input and base = base
        and out = out and mem = mem]
    by (simp add: block_threads_fold)
  then show "scan_and_write ctx input base out ?preds mem
         = (inplace_inclusive_scan ?preds,
            store_list mem out (selected input flags base (base + m)))"
    using m by (simp add: scan_and_write_def Let_def min_def)
  have "take (Suc (?d - 1)) ?preds = ?preds" using d by simp
  then have "inplace_inclusive_scan ?preds ! (?d - 1) = sum_list ?preds"
    using d by (simp add: inplace_inclusive_scan_def inclusive_scan_nth)
  then show "inplace_inclusive_scan ?preds ! (?d - 1) = count_flags flags base (base + m)"
    using sum_chunk_flags[OF bin, of base m ?d] m by (simp add: min_def)
qed

lemma read_data_full:
  "map (\<lambda>c. read_data c stencil base) (block_threads ctx)
     = map (chunk_flags stencil base (block_dimension ctx)) [0..<block_dimension ctx]"
  by (simp add: block_threads_def read_data_def chunk_flags_def comp_def)

lemma read_data_partial_flags:
  "base \<le> interval_end range' \<Longrightarrow>
   map (\<lambda>c. read_data_partial c stencil range' base) (block_threads ctx)
     = map (chunk_flags stencil base (interval_end range' - base)) [0..<block_dimension ctx]"
  by (auto simp: block_threads_def read_data_partial_def chunk_flags_def comp_def)

lemma process_full_blocks_effect:
  assumes bin: "binary_flags stencil"
    and d: "0 < block_dimension ctx"
  shows "base \<le> interval_end range' \<Longrightarrow>
         \<exists>base'. process_full_blocks ctx input stencil range' base out mem
                  = Some (base', out + count_flags stencil base base',
                          store_list mem out (selected input stencil base base'))
                \<and> base \<le> base' \<and> base' \<le> interval_end range'
                \<and> interval_end range' < base' + block_dimension ctx"
proof (induction "interval_end range' - base" arbitrary: base out mem rule: less_induct)
  case less
  let ?d = "block_dimension ctx"
  show ?case
  proof (cases "base + ?d \<le> interval_end range'")
    case True
    have dec: "interval_end range' - (base + ?d) < interval_end range' - base"
      using True d by simp
    let ?preds = "map (chunk_flags stencil base ?d) [0..<?d]"
    let ?c = "count_flags stencil base (base + ?d)"
    let ?mem1 = "store_list mem out (selected input stencil base (base + ?d))"
    from less.hyps[OF dec True, where out = "out + ?c" and mem = ?mem1]
    obtain base' where
      r: "process_full_blocks ctx input stencil range' (base + ?d) (out + ?c) ?mem1
            = Some (base', out + ?c + count_flags stencil (base + ?d) base',
                    store_list ?mem1 (out + ?c) (selected input stencil (base + ?d) base'))"
      and b: "base + ?d \<le> base'" "base' \<le> interval_end range'"
        "interval_end range' < base' + ?d"
      by blast
    have sw: "scan_and_write ctx input base out
                (map (\<lambda>c. read_data c stencil base) (block_threads ctx)) mem
              = (inplace_inclusive_scan ?preds, ?mem1)"
      unfolding read_data_full by (rule scan_and_write_effect(1)[OF bin order_refl d])
    have lastv: "inplace_inclusive_scan ?preds ! (?d - 1) = ?c"
      by (rule scan_and_write_effect(2)[OF bin order_refl d])
    have step: "process_full_blocks ctx input stencil range' base out mem
            = process_full_blocks ctx input stencil range' (base + ?d) (out + ?c) ?mem1"
      by (subst process_full_blocks.simps)
        (simp only: True if_True Let_def sw fst_conv snd_conv lastv)
    have app: "store_list ?mem1 (out + ?c) (selected input stencil (base + ?d) base')
                 = store_list mem out (selected input stencil base base')"
      using store_list_append[of mem out "selected input stencil base (base + ?d)"
          "selected input stencil (base + ?d) base'"]
        selected_append[of base "base + ?d" base' input stencil] b(1)
      by (simp add: length_selected)
    have cnt: "?c + count_flags stencil (base + ?d) base' = count_flags stencil base base'"
      using count_flags_append[of base "base + ?d" base' stencil] b(1) by simp
    show ?thesis
      using b cnt by (intro exI[of _ base']) (simp add: step r app add.assoc)
  next
    case False
    then show ?thesis
      using less.prems
      by (intro exI[of _ base], subst process_full_blocks.simps)
        (simp add: count_flags_def selected_empty store_list_Nil)
  qed
qed

lemma process_partial_block_effect:
  assumes bin: "binary_flags stencil"
    and d: "0 < block_dimension ctx"
    and b: "base \<le> interval_end range'" "interval_end range' < base + block_dimension ctx"
  shows "process_partial_block ctx input stencil range' base out mem
           = store_list mem out (selected input stencil base (interval_end range'))"
proof (cases "base < interval_end range'")
  case True
  have m: "interval_end range' - base \<le> block_dimension ctx" using b by simp
  have e: "base + (interval_end range' - base) = interval_end range'" using b by simp
  show ?thesis
    using True scan_and_write_effect(1)[OF bin m d, where input = input and base = base
        and out = out and mem = mem]
    by (simp add: process_partial_block_def Let_def read_data_partial_flags[OF b(1)] e)
next
  case False
  then show ?thesis
    using b by (simp add: process_partial_block_def selected_empty store_list_Nil)
qed

lemma closure_effect:
  assumes bin: "binary_flags stencil"
    and d: "0 < block_dimension ctx"
    and r: "interval_begin (decomp ! block_index ctx) \<le> interval_end (decomp ! block_index ctx)"
  shows "copy_if_intervals_closure input stencil offsets decomp out ctx mem
           = Some (store_list mem (advance_output ctx offsets out)
                     (selected input stencil (interval_begin (decomp ! block_index ctx))
                        (interval_end (decomp ! block_index ctx))))"
proof -
  let ?r = "decomp ! block_index ctx"
  let ?ob = "advance_output ctx offsets out"
  from process_full_blocks_effect[OF bin d r, where input = input and out = ?ob and mem = mem]
  obtain base' where
    f: "process_full_blocks ctx input stencil ?r (interval_begin ?r) ?ob mem
          = Some (base', ?ob + count_flags stencil (interval_begin ?r) base',
                  store_list mem ?ob (selected input stencil (interval_begin ?r) base'))"
    and b: "interval_begin ?r \<le> base'" "base' \<le> interval_end ?r"
      "interval_end ?r < base' + block_dimension ctx"
    by blast
  let ?s1 = "selected input stencil (interval_begin ?r) base'"
  let ?s2 = "selected input stencil base' (interval_end ?r)"
  have "process_partial_block ctx input stencil ?r base'
          (?ob + count_flags stencil (interval_begin ?r) base') (store_list mem ?ob ?s1)
        = store_list (store_list mem ?ob ?s1) (?ob + length ?s1) ?s2"
    unfolding length_selected by (rule process_partial_block_effect[OF bin d b(2,3)])
  also have "\<dots> = store_list mem ?ob (?s1 @ ?s2)"
    by (rule store_list_append)
  also have "?s1 @ ?s2 = selected input stencil (interval_begin ?r) (interval_end ?r)"
    by (rule selected_append[OF b(1,2)])
  finally have "process_partial_block ctx input stencil ?r base'
          (?ob + count_flags stencil (interval_begin ?r) base') (store_list mem ?ob ?s1)
        = store_list mem ?ob (selected input stencil (interval_begin ?r) (interval_end ?r))" .
  then show ?thesis
    by (simp add: copy_if_intervals_closure_def Let_def f)
qed

section \<open>The launch\<close>

lemma binary_predicate_to_integral: "binary_flags (\<lambda>k. predicate_to_integral pred (f k))"
  by (simp add: binary_flags_def predicate_to_integral_def)

lemma reduce_intervals_counts:
  "binary_flags flags \<Longrightarrow>
   reduce_intervals flags decomp
     = map (\<lambda>r. count_flags flags (interval_begin r) (interval_end r)) decomp"
  by (simp add: reduce_intervals_def count_flags_def sum_list_flags)

lemma scan_counts_nth:
  assumes "binary_flags flags" "j < length decomp"
  shows "inclusive_scan (reduce_intervals flags decomp) ! j
           = sum_list (map (\<lambda>r. count_flags flags (interval_begin r) (interval_end r))
                         (take (Suc j) decomp))"
  using assms by (simp add: reduce_intervals_counts inclusive_scan_nth take_map)

lemma count_flags_same: "count_flags flags b b = 0"
  by (simp add: count_flags_def)

lemma contiguous_sum:
  "contiguous_from b rs e \<Longrightarrow>
     b \<le> e \<and> sum_list (map (\<lambda>r. count_flags flags (interval_begin r) (interval_end r)) rs)
                = count_flags flags b e"
proof (induction rs arbitrary: b)
  case Nil
  then show ?case by (simp add: count_flags_same)
next
  case (Cons r rs)
  then have r: "interval_begin r = b" "b \<le> interval_end r"
    and rest: "contiguous_from (interval_end r) rs e" by simp_all
  from Cons.IH[OF rest] have ih: "interval_end r \<le> e"
    "sum_list (map (\<lambda>r. count_flags flags (interval_begin r) (interval_end r)) rs)
       = count_flags flags (interval_end r) e" by simp_all
  show ?case
    using r ih count_flags_append[of b "interval_end r" e flags] by simp
qed

lemma contiguous_take:
  "contiguous_from b rs e \<Longrightarrow> g < length rs \<Longrightarrow>
     contiguous_from b (take g rs) (interval_begin (rs ! g))"
proof (induction rs arbitrary: b g)
  case Nil
  then show ?case by simp
next
  case (Cons r rs)
  then show ?case by (cases g) simp_all
qed

lemma contiguous_take_Suc:
  "contiguous_from b rs e \<Longrightarrow> g < length rs \<Longrightarrow>
     contiguous_from b (take (Suc g) rs) (interval_end (rs ! g))"
proof (induction rs arbitrary: b g)
  case Nil
  then show ?case by simp
next
  case (Cons r rs)
  then show ?case by (cases g) simp_all
qed

lemma contiguous_nth:
  "contiguous_from b rs e \<Longrightarrow> g < length rs \<Longrightarrow>
     b \<le> interval_begin (rs ! g) \<and> interval_begin (rs ! g) \<le> interval_end (rs ! g)
     \<and> interval_end (rs ! g) \<le> e"
proof (induction rs arbitrary: b g)
  case Nil
  then show ?case by simp
next
  case (Cons r rs)
  then have r: "interval_begin r = b" "b \<le> interval_end r"
    and rest: "contiguous_from (interval_end r) rs e" by simp_all
  have le: "interval_end r \<le> e" using contiguous_sum[OF rest, of "\<lambda>k. 0"] by simp
  show ?case
  proof (cases g)
    case 0
    then show ?thesis using r le by simp
  next
    case (Suc g')
    then have "g' < length rs" using Cons.prems by simp
    from Cons.IH[OF rest this] show ?thesis using Suc r by simp
  qed
qed

lemma offsets_before:
  assumes "binary_flags flags" "contiguous_from 0 decomp N" "g < length decomp" "g \<noteq> 0"
  shows "inclusive_scan (reduce_intervals flags decomp) ! (g - 1)
           = count_flags flags 0 (interval_begin (decomp ! g))"
proof -
  have "g - 1 < length decomp" "Suc (g - 1) = g" using assms(3,4) by simp_all
  then show ?thesis
    using scan_counts_nth[OF assms(1), of "g - 1" decomp]
      contiguous_sum[OF contiguous_take[OF assms(2,3)], of flags]
    by simp
qed

lemma offsets_last:
  assumes "binary_flags flags" "contiguous_from 0 decomp N" "decomp \<noteq> []"
  shows "inclusive_scan (reduce_intervals flags decomp) ! (length decomp - 1)
           = count_flags flags 0 N"
proof -
  have "length decomp - 1 < length decomp" "Suc (length decomp - 1) = length decomp"
    using assms(3) by simp_all
  then show ?thesis
    using scan_counts_nth[OF assms(1), of "length decomp - 1" decomp]
      contiguous_sum[OF assms(2), of flags]
    by simp
qed

lemma advance_output_count:
  assumes "binary_flags flags" "contiguous_from 0 decomp N" "block_index ctx < length decomp"
  shows "advance_output ctx (inclusive_scan (reduce_intervals flags decomp)) out
           = out + count_flags flags 0 (interval_begin (decomp ! block_index ctx))"
proof (cases "block_index ctx = 0")
  case True
  have "contiguous_from 0 (take 0 decomp) (interval_begin (decomp ! 0))"
    using assms(2,3) True by (intro contiguous_take) simp_all
  then have "interval_begin (decomp ! 0) = 0" by simp
  then show ?thesis using True by (simp add: advance_output_def count_flags_same)
next
  case False
  then show ?thesis
    using offsets_before[OF assms(1,2,3) False] by (simp add: advance_output_def)
qed

lemma contiguous_cover:
  "contiguous_from b rs e \<Longrightarrow> count_flags flags 0 b \<le> j \<Longrightarrow> j < count_flags flags 0 e \<Longrightarrow>
     \<exists>g<length rs. count_flags flags 0 (interval_begin (rs ! g)) \<le> j
                   \<and> j < count_flags flags 0 (interval_end (rs ! g))"
proof (induction rs arbitrary: b)
  case Nil
  then show ?case by simp
next
  case (Cons r rs)
  then have r: "interval_begin r = b" and rest: "contiguous_from (interval_end r) rs e"
    by simp_all
  show ?case
  proof (cases "j < count_flags flags 0 (interval_end r)")
    case True
    then show ?thesis using r Cons.prems(2) by (intro exI[of _ 0]) simp
  next
    case False
    then have "count_flags flags 0 (interval_end r) \<le> j" by simp
    from Cons.IH[OF rest this Cons.prems(3)] obtain g where
      "g < length rs" "count_flags flags 0 (interval_begin (rs ! g)) \<le> j"
      "j < count_flags flags 0 (interval_end (rs ! g))" by blast
    then show ?thesis by (intro exI[of _ "Suc g"]) simp
  qed
qed

lemma selected_region_nth:
  assumes "b \<le> e" "e \<le> N"
    and "count_flags flags 0 b \<le> j" "j < count_flags flags 0 e"
  shows "selected input flags 0 N ! j = selected input flags b e ! (j - count_flags flags 0 b)"
proof -
  have "selected input flags 0 N
          = selected input flags 0 b @ selected input flags b e @ selected input flags e N"
    using assms(1,2) selected_append[of 0 b N input flags] selected_append[of b e N input flags]
    by simp
  moreover have "j - count_flags flags 0 b < length (selected input flags b e)"
    using assms count_flags_append[of 0 b e flags] by (simp add: length_selected)
  ultimately show ?thesis
    using assms(3) by (simp add: nth_append length_selected)
qed

lemma block_step:
  assumes bin: "binary_flags flags" and d: "0 < block_size"
    and c: "contiguous_from 0 decomp N" and g: "g < length decomp"
  shows "copy_if_intervals_closure input flags (inclusive_scan (reduce_intervals flags decomp))
           decomp out \<lparr>block_index = g, thread_index = 0, block_dimension = block_size\<rparr>
           (blocks_done mem out (selected input flags 0 N) flags decomp S)
         = Some (blocks_done mem out (selected input flags 0 N) flags decomp (insert g S))"
proof -
  let ?ctx = "\<lparr>block_index = g, thread_index = 0, block_dimension = block_size\<rparr>"
  let ?B = "interval_begin (decomp ! g)"
  let ?E = "interval_end (decomp ! g)"
  let ?m = "blocks_done mem out (selected input flags 0 N) flags decomp S"
  from contiguous_nth[OF c g] have be: "?B \<le> ?E" "?E \<le> N" by simp_all
  have cnt: "count_flags flags 0 ?B + count_flags flags ?B ?E = count_flags flags 0 ?E"
    using be by (intro count_flags_append) simp_all
  have "copy_if_intervals_closure input flags (inclusive_scan (reduce_intervals flags decomp))
           decomp out ?ctx ?m
        = Some (store_list ?m (out + count_flags flags 0 ?B) (selected input flags ?B ?E))"
    using closure_effect[OF bin, of ?ctx decomp input "inclusive_scan (reduce_intervals flags decomp)" out ?m]
      advance_output_count[OF bin c, of ?ctx out] d g be
    by simp
  moreover have "store_list ?m (out + count_flags flags 0 ?B) (selected input flags ?B ?E)
                   = blocks_done mem out (selected input flags 0 N) flags decomp (insert g S)"
  proof (rule ext)
    fix a
    show "store_list ?m (out + count_flags flags 0 ?B) (selected input flags ?B ?E) a
            = blocks_done mem out (selected input flags 0 N) flags decomp (insert g S) a"
    proof (cases "out + count_flags flags 0 ?B \<le> a \<and> a < out + count_flags flags 0 ?E")
      case True
      then have j: "count_flags flags 0 ?B \<le> a - out" "a - out < count_flags flags 0 ?E"
        by auto
      have "a - (out + count_flags flags 0 ?B) = (a - out) - count_flags flags 0 ?B" by simp
      then show ?thesis
        using True cnt selected_region_nth[OF be j, of input]
        by (simp add: store_list_def blocks_done_def length_selected)
    next
      case False
      then have "\<not> (out + count_flags flags 0 ?B \<le> a
                     \<and> a < out + count_flags flags 0 ?B + length (selected input flags ?B ?E))"
        using cnt unfolding length_selected by arith
      then have "store_list ?m (out + count_flags flags 0 ?B) (selected input flags ?B ?E) a = ?m a"
        unfolding store_list_def by (rule if_not_P)
      also have "\<dots> = blocks_done mem out (selected input flags 0 N) flags decomp (insert g S) a"
        using False by (auto simp: blocks_done_def)
      finally show ?thesis .
    qed
  qed
  ultimately show ?thesis by simp
qed

lemma launch_effect:
  assumes bin: "binary_flags flags" and d: "0 < block_size"
    and c: "contiguous_from 0 decomp N"
  shows "set bs \<subseteq> {0..<length decomp} \<Longrightarrow>
         launch_closure bs
           (copy_if_intervals_closure input flags (inclusive_scan (reduce_intervals flags decomp))
              decomp out)
           block_size (blocks_done mem out (selected input flags 0 N) flags decomp S)
         = Some (blocks_done mem out (selected input flags 0 N) flags decomp (S \<union> set bs))"
proof (induction bs arbitrary: S)
  case Nil
  then show ?case by (simp add: launch_closure_def)
next
  case (Cons g bs)
  then have g: "g < length decomp" and rest: "set bs \<subseteq> {0..<length decomp}" by simp_all
  have "S \<union> set (g # bs) = insert g S \<union> set bs" by simp
  then show ?case
    using Cons.IH[OF rest, of "insert g S"] block_step[OF bin d c g, of input out mem S]
    by (simp add: launch_closure_def)
qed

lemma blocks_done_none: "blocks_done mem out T flags decomp {} = mem"
  by (rule ext) (simp add: blocks_done_def)

lemma blocks_done_all:
  assumes c: "contiguous_from 0 decomp N"
  shows "blocks_done mem out (selected input flags 0 N) flags decomp {0..<length decomp}
           = store_list mem out (selected input flags 0 N)"
proof (rule ext)
  fix a
  let ?T = "selected input flags 0 N"
  show "blocks_done mem out ?T flags decomp {0..<length decomp} a = store_list mem out ?T a"
  proof (cases "out \<le> a \<and> a < out + length ?T")
    case True
    then have "count_flags flags 0 0 \<le> a - out" "a - out < count_flags flags 0 N"
      by (auto simp: length_selected count_flags_same)
    from contiguous_cover[OF c this] obtain g where
      "g < length decomp" "count_flags flags 0 (interval_begin (decomp ! g)) \<le> a - out"
      "a - out < count_flags flags 0 (interval_end (decomp ! g))" by blast
    then have "\<exists>g\<in>{0..<length decomp}.
                 out + count_flags flags 0 (interval_begin (decomp ! g)) \<le> a
                 \<and> a < out + count_flags flags 0 (interval_end (decomp ! g))"
      using True by (intro bexI[of _ g]) auto
    then show ?thesis using True by (simp add: blocks_done_def store_list_def)
  next
    case False
    have "\<not> (\<exists>g\<in>{0..<length decomp}.
                 out + count_flags flags 0 (interval_begin (decomp ! g)) \<le> a
                 \<and> a < out + count_flags flags 0 (interval_end (decomp ! g)))"
    proof
      assume "\<exists>g\<in>{0..<length decomp}.
                 out + count_flags flags 0 (interval_begin (decomp ! g)) \<le> a
                 \<and> a < out + count_flags flags 0 (interval_end (decomp ! g))"
      then obtain g where g: "g < length decomp"
        and r: "out + count_flags flags 0 (interval_begin (decomp ! g)) \<le> a"
          "a < out + count_flags flags 0 (interval_end (decomp ! g))" by auto
      from contiguous_nth[OF c g] have "interval_end (decomp ! g) \<le> N" by simp
      then have "count_flags flags 0 (interval_end (decomp ! g)) \<le> count_flags flags 0 N"
        using count_flags_append[of 0 "interval_end (decomp ! g)" N flags] by simp
      with r False show False by (simp add: length_selected)
    qed
    then have "blocks_done mem out ?T flags decomp {0..<length decomp} a = mem a"
      unfolding blocks_done_def by (rule if_not_P)
    moreover have "store_list mem out ?T a = mem a"
      unfolding store_list_def using False by (rule if_not_P)
    ultimately show ?thesis by simp
  qed
qed

lemma copy_if_effect:
  assumes ne: "first < last'"
    and dec: "is_decomposition (last' - first) (default_decomposition (last' - first))"
    and sched: "set (schedule (length (default_decomposition (last' - first))))
                  = {0..<length (default_decomposition (last' - first))}"
  shows "copy_if schedule default_decomposition input_mem first last' stencil_mem stencil
           out_mem out pred
         = Some (out + count_flags (\<lambda>k. predicate_to_integral pred (stencil_mem (stencil + k)))
                         0 (last' - first),
                 store_list out_mem out
                   (selected (\<lambda>k. input_mem (first + k))
                      (\<lambda>k. predicate_to_integral pred (stencil_mem (stencil + k)))
                      0 (last' - first)))"
proof -
  define N where "N = last' - first"
  define decomp where "decomp = default_decomposition N"
  define flags where "flags = (\<lambda>k. predicate_to_integral pred (stencil_mem (stencil + k)))"
  define input where "input = (\<lambda>k. input_mem (first + k))"
  have bin: "binary_flags flags"
    unfolding flags_def by (rule binary_predicate_to_integral)
  have c: "contiguous_from 0 decomp N" and nonempty: "decomp \<noteq> []"
    using dec by (simp_all add: is_decomposition_def decomp_def N_def)

  have sub: "set (schedule (length decomp)) \<subseteq> {0..<length decomp}"
    using sched by (simp add: decomp_def N_def)
  have "launch_closure (schedule (length decomp))
          (copy_if_intervals_closure input flags (inclusive_scan (reduce_intervals flags decomp))
             decomp out)
          256 (blocks_done out_mem out (selected input flags 0 N) flags decomp {})
        = Some (blocks_done out_mem out (selected input flags 0 N) flags decomp
                  ({} \<union> set (schedule (length decomp))))"
    by (rule launch_effect[OF bin _ c sub]) simp
  then have l: "launch_closure (schedule (length decomp))
          (copy_if_intervals_closure input flags (inclusive_scan (reduce_intervals flags decomp))
             decomp out)
          256 out_mem
        = Some (store_list out_mem out (selected input flags 0 N))"
    using sched blocks_done_all[OF c, of out_mem out input flags]
    by (simp add: blocks_done_none decomp_def N_def)
  have r: "inclusive_scan (reduce_intervals flags decomp) ! (length decomp - 1)
             = count_flags flags 0 N"
    by (rule offsets_last[OF bin c nonempty])
  show ?thesis
    unfolding copy_if_def Let_def N_def[symmetric] decomp_def[symmetric] flags_def[symmetric]
      input_def[symmetric]
    using ne r by (simp add: l)
qed

section \<open>The result of \<open>copy_if\<close>\<close>

lemma predicate_flag_set: "(predicate_to_integral pred x \<noteq> 0) = pred x"
  by (simp add: predicate_to_integral_def)

lemma predicate_flag_pos: "(0 < predicate_to_integral pred x) = pred x"
  by (simp add: predicate_to_integral_def)

lemma filter_offsets:
  assumes "first \<le> last'"
  shows "map (\<lambda>k. first + k) (filter (\<lambda>k. P (first + k)) [0..<last' - first])
           = filter P [first..<last']"
proof -
  have "[first..<last'] = map (\<lambda>k. first + k) [0..<last' - first]"
    using assms map_add_upt[of first "last' - first"] by (simp add: add.commute)
  then show ?thesis by (simp add: filter_map comp_def)
qed

lemma selected_as_filter:
  assumes "first \<le> last'"
  shows "selected (\<lambda>k. input_mem (first + k))
           (\<lambda>k. predicate_to_integral pred (stencil_mem (stencil + k))) 0 (last' - first)
         = map input_mem (filter (\<lambda>p. pred (stencil_mem (stencil + (p - first)))) [first..<last'])"
proof -
  have "map input_mem (filter (\<lambda>p. pred (stencil_mem (stencil + (p - first)))) [first..<last'])
          = map input_mem (map (\<lambda>k. first + k)
              (filter (\<lambda>k. pred (stencil_mem (stencil + (first + k - first)))) [0..<last' - first]))"
    using filter_offsets[OF assms, of "\<lambda>p. pred (stencil_mem (stencil + (p - first)))"] by simp
  then show ?thesis
    by (simp add: selected_def predicate_flag_pos comp_def)
qed

lemma count_as_filter:
  assumes "first \<le> last'"
  shows "count_flags (\<lambda>k. predicate_to_integral pred (stencil_mem (stencil + k))) 0 (last' - first)
         = length (filter (\<lambda>p. pred (stencil_mem (stencil + (p - first)))) [first..<last'])"
  using selected_as_filter[OF assms, of "\<lambda>k. k" pred stencil_mem stencil]
  by (metis length_selected length_map)

lemma copy_if_result:
  assumes "first \<le> last'"
    and "is_decomposition (last' - first) (default_decomposition (last' - first))"
    and "set (schedule (length (default_decomposition (last' - first))))
           = {0..<length (default_decomposition (last' - first))}"
  shows "copy_if schedule default_decomposition input_mem first last' stencil_mem stencil
           out_mem out pred
         = Some (out + length (filter (\<lambda>p. pred (stencil_mem (stencil + (p - first)))) [first..<last']),
                 store_list out_mem out
                   (map input_mem
                      (filter (\<lambda>p. pred (stencil_mem (stencil + (p - first)))) [first..<last'])))"
proof (cases "first = last'")
  case True
  then show ?thesis by (simp add: copy_if_def store_list_Nil)
next
  case False
  then have "first < last'" using assms(1) by simp
  have "copy_if schedule default_decomposition input_mem first last' stencil_mem stencil
           out_mem out pred
         = Some (out + count_flags (\<lambda>k. predicate_to_integral pred (stencil_mem (stencil + k)))
                         0 (last' - first),
                 store_list out_mem out
                   (selected (\<lambda>k. input_mem (first + k))
                      (\<lambda>k. predicate_to_integral pred (stencil_mem (stencil + k)))
                      0 (last' - first)))"
    by (rule copy_if_effect) (rule \<open>first < last'\<close> assms(2,3))+
  then show ?thesis
    by (simp add: selected_as_filter[OF assms(1)] count_as_filter[OF assms(1)])
qed

lemma store_list_map: "map (store_list mem a xs) [a..<a + length xs] = xs"
  by (rule nth_equalityI) (simp_all add: store_list_def)

lemma store_list_frame: "x < a \<or> a + length xs \<le> x \<Longrightarrow> store_list mem a xs x = mem x"
  by (auto simp: store_list_def)

lemma is_decomposition_two_intervals: "is_decomposition N (two_intervals N)"
  by (simp add: is_decomposition_def two_intervals_def)

lemma last_block_first_covers: "set (last_block_first k) = {0..<k}"
  by (simp add: last_block_first_def)


section \<open>Results for \<open>thrust/range/end.h\<close>\<close>

text \<open>
  C10.  For a built-in array \<open>T a[sz]\<close>, const or not, \<open>end(a)\<close> is the pointer \<open>a + sz\<close>:
  it lies \<open>sz\<close> elements after the array's first element, directly behind every element
  of the array and exactly one element past the last one.  For a range with an \<open>end()\<close>
  member, \<open>end(r)\<close> is \<open>r.end()\<close>.
\<close>

theorem end_one_past_last:
  "end_array a = ptr_add (element_size a) (array_address a) (array_extent a)
   \<and> end_const_array a = ptr_add (element_size a) (array_address a) (array_extent a)
   \<and> (\<forall>i < array_extent a. element_address a i + element_size a \<le> end_array a)
   \<and> (0 < array_extent a \<longrightarrow>
        end_array a = element_address a (array_extent a - 1) + element_size a
        \<and> end_const_array a = element_address a (array_extent a - 1) + element_size a)
   \<and> end_default r = range_end r"
proof -
  have "\<And>i. i < array_extent a \<Longrightarrow>
          array_address a + i * element_size a + element_size a
            \<le> array_address a + array_extent a * element_size a"
  proof -
    fix i assume "i < array_extent a"
    then have "Suc i * element_size a \<le> array_extent a * element_size a"
      by (intro mult_le_mono1) simp
    then show "array_address a + i * element_size a + element_size a
                 \<le> array_address a + array_extent a * element_size a"
      by simp
  qed
  moreover have "0 < array_extent a \<Longrightarrow>
      array_address a + array_extent a * element_size a
        = array_address a + (array_extent a - 1) * element_size a + element_size a"
    by (cases "array_extent a") simp_all
  ultimately show ?thesis
    by (simp add: end_array_def end_const_array_def end_default_def element_address_def ptr_add_def)
qed

theorem end_one_past_last_witness:
  "end_array \<lparr>array_address = 1000, array_extent = 5, element_size = 4\<rparr> = 1020
   \<and> end_const_array \<lparr>array_address = 1000, array_extent = 5, element_size = 4\<rparr> = 1020
   \<and> element_address \<lparr>array_address = 1000, array_extent = 5, element_size = 4\<rparr> 4 + 4 = 1020
   \<and> end_default \<lparr>range_begin = (7::nat), range_end = 12\<rparr> = 12"
  using end_one_past_last
    [of "\<lparr>array_address = 1000, array_extent = 5, element_size = 4\<rparr>"
        "\<lparr>range_begin = (7::nat), range_end = 12\<rparr>"]
  by (simp add: ptr_add_def)


section \<open>Results for \<open>block/copy.h\<close>\<close>

text \<open>
  C3.  The specification asks that for every byte count and every pair of non-overlapping
  addresses the destination's first \<open>num_bytes\<close> bytes equal the source's once
  \<open>trivial_copy\<close> has completed.  The code diverges for large byte counts: with both
  addresses aligned and \<open>2 ^ 35\<close> bytes to copy, the number of wide elements, \<open>2 ^ 32\<close>,
  is passed to the \<open>unsigned int\<close> parameter of \<open>aligned_copy\<close> and becomes 0; every
  lane returns at once, the block completes, and the destination still differs from the
  source.  (The source occupies \<open>[2 ^ 35, 2 ^ 36)\<close>, the destination starts at \<open>2 ^ 36\<close>.)
\<close>

theorem trivial_copy_fidelity_at_large_size:
  "group_trivial_copy \<lparr>block_index = 0, thread_index = 0, block_dimension = 4\<rparr>
      (2 ^ 36) (2 ^ 35) (2 ^ 35) marked_memory = Some marked_memory
   \<and> marked_memory (2 ^ 36) \<noteq> marked_memory (2 ^ 35)"
  using group_trivial_copy_narrowed
    [of "2 ^ 36" "2 ^ 35" "\<lparr>block_index = 0, thread_index = 0, block_dimension = 4\<rparr>" marked_memory]
  by (simp add: marked_memory_def)

text \<open>
  Within the reach of the 32-bit counters the property holds.  For every byte count
  \<open>num_bytes\<close> with \<open>num_bytes + block_dimension \<le> 2 ^ 32\<close> and every pair of
  non-overlapping source and destination addresses, aligned or not, the block returns
  from \<open>trivial_copy\<close>, the first \<open>num_bytes\<close> bytes of the destination then equal the
  first \<open>num_bytes\<close> bytes of the source, and no other byte has changed.
\<close>

theorem trivial_copy_fidelity:
  assumes "0 < block_dimension ctx"
    and "num_bytes + block_dimension ctx \<le> 2 ^ 32"
    and "destination + num_bytes \<le> source \<or> source + num_bytes \<le> destination"
  shows "\<exists>mem'. group_trivial_copy ctx destination source num_bytes mem = Some mem'
           \<and> map mem' [destination ..< destination + num_bytes]
               = map mem [source ..< source + num_bytes]
           \<and> (\<forall>a. a < destination \<or> destination + num_bytes \<le> a \<longrightarrow> mem' a = mem a)"
  using group_trivial_copy_effect[OF assms, of mem]
    copy_on_lessThan_map[of num_bytes destination source mem]
    copy_on_lessThan_frame[of _ destination num_bytes source mem]
  by simp

theorem trivial_copy_fidelity_witness:
  "(\<exists>mem'. group_trivial_copy \<lparr>block_index = 0, thread_index = 0, block_dimension = 4\<rparr>
              3 100 21 (\<lambda>a. a) = Some mem'
          \<and> map mem' [3 ..< 24] = [100 ..< 121])
   \<and> (\<exists>mem'. group_trivial_copy \<lparr>block_index = 0, thread_index = 0, block_dimension = 4\<rparr>
              8 64 21 (\<lambda>a. a) = Some mem'
          \<and> map mem' [8 ..< 29] = [64 ..< 85])"
  using trivial_copy_fidelity
      [of "\<lparr>block_index = 0, thread_index = 0, block_dimension = 4\<rparr>" 21 3 100 "\<lambda>a. a"]
    trivial_copy_fidelity
      [of "\<lparr>block_index = 0, thread_index = 0, block_dimension = 4\<rparr>" 21 8 64 "\<lambda>a. a"]
  by auto


text \<open>
  C5.  The specification describes the dispatch of \<open>trivial_copy\<close> for every byte count: all
  \<open>num_bytes\<close> bytes are copied bytewise when an address is misaligned, and
  \<open>wideCount = num_bytes / sizeof(W)\<close> wide words plus the remainder when both are
  aligned.  The code diverges for large byte counts.  With a misaligned destination and
  \<open>2 ^ 32\<close> bytes, the \<open>unsigned int\<close> counter of lane 0 is always below \<open>num_bytes\<close>:
  the lane never leaves the loop.  With both addresses aligned and \<open>2 ^ 35\<close> bytes,
  \<open>quotient_and_remainder\<close> yields \<open>2 ^ 32\<close> wide elements, but \<open>aligned_copy\<close> receives the
  count 0 and the lane performs no transfer.
\<close>

theorem trivial_copy_dispatch_at_large_size:
  "trivial_copy \<lparr>block_index = 0, thread_index = 0, block_dimension = 256\<rparr>
      (2 ^ 33 + 1) (2 ^ 32) (2 ^ 32) marked_memory = None
   \<and> quotient_and_remainder (2 ^ 35) sizeof_int2 = (2 ^ 32, 0)
   \<and> trivial_copy \<lparr>block_index = 0, thread_index = 0, block_dimension = 256\<rparr>
        (2 ^ 36) (2 ^ 35) (2 ^ 35) marked_memory = Some marked_memory
   \<and> marked_memory (2 ^ 36) \<noteq> marked_memory (2 ^ 35)"
proof -
  have "strided_copy_loop 256 1 (2 ^ 33 + 1) (2 ^ 32) (2 ^ 32) 0 marked_memory = None"
    by (rule strided_copy_loop_never) simp_all
  then have "trivial_copy \<lparr>block_index = 0, thread_index = 0, block_dimension = 256\<rparr>
               (2 ^ 33 + 1) (2 ^ 32) (2 ^ 32) marked_memory = None"
    by (simp add: trivial_copy_def sizeof_int2_def)
  moreover have "quotient_and_remainder (2 ^ 35) sizeof_int2 = (2 ^ 32, 0)"
    by (simp add: quotient_and_remainder_div_mod sizeof_int2_def)
  moreover have "marked_memory (2 ^ 36) \<noteq> marked_memory (2 ^ 35)"
    by (simp add: marked_memory_def)
  ultimately show ?thesis
    using trivial_copy_narrowed
      [of "2 ^ 36" "2 ^ 35" "\<lparr>block_index = 0, thread_index = 0, block_dimension = 256\<rparr>"
          marked_memory]
    by simp
qed

text \<open>
  The two inputs take the two sides of the alignment test: the first destination is
  misaligned to the wide word, the second destination and source are both aligned.
\<close>

theorem trivial_copy_dispatch_at_large_size_witness:
  "(2 ^ 33 + 1) mod sizeof_int2 \<noteq> 0
   \<and> trivial_copy \<lparr>block_index = 0, thread_index = 0, block_dimension = 256\<rparr>
        (2 ^ 33 + 1) (2 ^ 32) (2 ^ 32) marked_memory = None
   \<and> 2 ^ 36 mod sizeof_int2 = 0 \<and> 2 ^ 35 mod sizeof_int2 = 0
   \<and> trivial_copy \<lparr>block_index = 0, thread_index = 0, block_dimension = 256\<rparr>
        (2 ^ 36) (2 ^ 35) (2 ^ 35) marked_memory = Some marked_memory"
  using trivial_copy_dispatch_at_large_size by (simp add: sizeof_int2_def)

text \<open>
  Within the reach of the 32-bit counters the dispatch is as specified.  For
  \<open>num_bytes + block_dimension \<le> 2 ^ 32\<close> (and non-overlapping buffers) \<open>trivial_copy\<close>
  dispatches on alignment symmetrically.  If the destination or the source is
  misaligned to the wide word, lane \<open>i\<close> copies exactly the bytes
  \<open>i, i + block_dimension, \<dots>\<close> below \<open>num_bytes\<close>.  If both are aligned, then with
  \<open>wideCount = num_bytes div 8\<close> and \<open>remainder = num_bytes mod 8\<close>, as
  \<open>quotient_and_remainder\<close> computes them, lane \<open>i\<close> copies exactly the wide words
  \<open>i, i + block_dimension, \<dots>\<close> below \<open>wideCount\<close> and the bytes
  \<open>i, i + block_dimension, \<dots>\<close> below \<open>remainder\<close> of the tail that starts at byte
  \<open>8 * wideCount\<close>; and \<open>wideCount * 8 + remainder = num_bytes\<close>.
\<close>

theorem trivial_copy_dispatch:
  assumes "0 < block_dimension ctx"
    and "num_bytes + block_dimension ctx \<le> 2 ^ 32"
    and "destination + num_bytes \<le> source \<or> source + num_bytes \<le> destination"
  shows "(destination mod sizeof_int2 \<noteq> 0 \<or> source mod sizeof_int2 \<noteq> 0 \<longrightarrow>
            trivial_copy ctx destination source num_bytes mem
              = Some (copy_on {off. off < num_bytes \<and> thread_index ctx \<le> off
                                 \<and> (off - thread_index ctx) mod block_dimension ctx = 0}
                        destination source mem))
       \<and> (destination mod sizeof_int2 = 0 \<and> source mod sizeof_int2 = 0 \<longrightarrow>
            (\<exists>wideCount remainder.
               quotient_and_remainder num_bytes sizeof_int2 = (wideCount, remainder)
               \<and> wideCount = num_bytes div sizeof_int2
               \<and> remainder = num_bytes mod sizeof_int2
               \<and> wideCount * sizeof_int2 + remainder = num_bytes
               \<and> trivial_copy ctx destination source num_bytes mem
                   = Some (copy_on
                       ({off. off div sizeof_int2 < wideCount
                              \<and> thread_index ctx \<le> off div sizeof_int2
                              \<and> (off div sizeof_int2 - thread_index ctx) mod block_dimension ctx = 0}
                        \<union> {sizeof_int2 * wideCount + r | r.
                              r < remainder \<and> thread_index ctx \<le> r
                              \<and> (r - thread_index ctx) mod block_dimension ctx = 0})
                       destination source mem)))"
proof -
  have img: "\<And>c P. (\<lambda>r. c + r) ` {off. P off} = {c + r | r. P r}"
    by auto
  show ?thesis
    using trivial_copy_effect[OF assms, of mem]
    by (simp add: trivial_copy_offsets_def lane_offsets_def sizeof_int2_def
        quotient_and_remainder_div_mod img)
qed

theorem trivial_copy_dispatch_witness:
  "map_option (\<lambda>m. map m [3 ..< 24])
     (trivial_copy \<lparr>block_index = 0, thread_index = 1, block_dimension = 4\<rparr> 3 100 21 (\<lambda>a. a))
     = Some [3, 101, 5, 6, 7, 105, 9, 10, 11, 109, 12 + 1, 14, 15, 113, 17, 18, 19, 117, 21, 22, 23]
   \<and> map_option (\<lambda>m. map m [8 ..< 29])
     (trivial_copy \<lparr>block_index = 0, thread_index = 1, block_dimension = 4\<rparr> 8 64 21 (\<lambda>a. a))
     = Some [8, 9, 10, 11, 12, 13, 14, 15, 72, 73, 74, 75, 76, 77, 78, 79, 24, 81, 26, 27, 28]"
  using trivial_copy_dispatch
      [of "\<lparr>block_index = 0, thread_index = 1, block_dimension = 4\<rparr>" 21 3 100 "\<lambda>a. a"]
    trivial_copy_dispatch
      [of "\<lparr>block_index = 0, thread_index = 1, block_dimension = 4\<rparr>" 21 8 64 "\<lambda>a. a"]
  by (simp add: sizeof_int2_def copy_on_def upt_rec)

text \<open>
  C6.  The specification asks that \<open>block::copy\<close> copies each element of every range
  \<open>[first, last)\<close> and returns \<open>result + (last - first)\<close>, on the fast path as on the
  generic path.  The code diverges on the fast path for large ranges: for \<open>2 ^ 32\<close>
  elements of 8 bytes at aligned addresses every lane returns \<open>result + (last - first)\<close>,
  but no element has been copied.
\<close>

theorem block_copy_result_at_large_size:
  "group_copy 200 True \<lparr>block_index = 0, thread_index = 0, block_dimension = 4\<rparr>
      8 (2 ^ 35) (2 ^ 36) (2 ^ 36) marked_memory
     = Some (replicate 4 (ptr_add 8 (2 ^ 36) (ptr_diff 8 (2 ^ 36) (2 ^ 35))), marked_memory)
   \<and> marked_memory (2 ^ 36) \<noteq> marked_memory (2 ^ 35)"
  using group_copy_narrowed
    [of "2 ^ 36" "2 ^ 35" "\<lparr>block_index = 0, thread_index = 0, block_dimension = 4\<rparr>"
        marked_memory]
  by (simp add: marked_memory_def ptr_add_def ptr_diff_def)

text \<open>
  Where the 32-bit counters reach, the property holds.  For every range \<open>[first, last)\<close>
  and a destination range that does not overlap it, \<open>block::copy\<close> copies each element
  of \<open>[first, last)\<close> to \<open>result, result + 1, \<dots>\<close> in order, nothing else changes, and
  every lane returns exactly \<open>result + (last - first)\<close>: on the generic per-element path
  always, and on the trivial-copy fast path when the byte length of the range plus
  \<open>block_dimension\<close> is at most \<open>2 ^ 32\<close>.  The addresses \<open>first\<close>, \<open>last\<close> and \<open>result\<close> are
  in cells, so \<open>last - first\<close> below is the byte length \<open>(last - first) * sizeof(T)\<close> of
  the source.
\<close>

theorem block_copy_result:
  assumes "0 < sizeof_T" and "0 < block_dimension ctx"
    and "first \<le> last'" and "sizeof_T dvd (last' - first)"
    and "result + (last' - first) \<le> first \<or> last' \<le> result"
    and "is_trivial_copy \<and> 200 \<le> cuda_arch
           \<longrightarrow> (last' - first) + block_dimension ctx \<le> 2 ^ 32"
  shows "\<exists>mem'. group_copy cuda_arch is_trivial_copy ctx sizeof_T first last' result mem
                  = Some (replicate (block_dimension ctx)
                            (ptr_add sizeof_T result (ptr_diff sizeof_T last' first)), mem')
           \<and> map mem' [result ..< result + (last' - first)] = map mem [first ..< last']
           \<and> (\<forall>a. a < result \<or> result + (last' - first) \<le> a \<longrightarrow> mem' a = mem a)"
proof -
  from assms(4) obtain n where n: "last' - first = n * sizeof_T"
    by (auto simp: dvd_def mult.commute)
  with assms(3) have l: "last' = ptr_add sizeof_T first n"
    by (simp add: ptr_add_def)
  have d: "ptr_diff sizeof_T last' first = n"
    using assms(1) by (simp add: l ptr_diff_ptr_add)
  have e: "first + n * sizeof_T = last'"
    using l by (simp add: ptr_add_def)
  have "group_copy cuda_arch is_trivial_copy ctx sizeof_T first (ptr_add sizeof_T first n) result mem
          = Some (replicate (block_dimension ctx) (ptr_add sizeof_T result n),
                  copy_on {..<n * sizeof_T} result first mem)"
    using assms(1,2,5,6) n e by (intro group_copy_effect) auto
  then show ?thesis
    using copy_on_lessThan_map[of "n * sizeof_T" result first mem]
      copy_on_lessThan_frame[of _ result "n * sizeof_T" first mem]
    by (simp add: l[symmetric] d n e)
qed

theorem block_copy_result_witness:
  "(\<exists>mem'. group_copy 100 True \<lparr>block_index = 0, thread_index = 0, block_dimension = 4\<rparr>
              4 100 140 16 (\<lambda>a. a) = Some (replicate 4 56, mem')
          \<and> map mem' [16 ..< 56] = [100 ..< 140])
   \<and> (\<exists>mem'. group_copy 200 True \<lparr>block_index = 0, thread_index = 0, block_dimension = 4\<rparr>
              4 100 140 16 (\<lambda>a. a) = Some (replicate 4 56, mem')
          \<and> map mem' [16 ..< 56] = [100 ..< 140])"
  using block_copy_result
      [of 4 "\<lparr>block_index = 0, thread_index = 0, block_dimension = 4\<rparr>" 100 140 16 True 100 "\<lambda>a. a"]
    block_copy_result
      [of 4 "\<lparr>block_index = 0, thread_index = 0, block_dimension = 4\<rparr>" 100 140 16 True 200 "\<lambda>a. a"]
  by (auto simp: ptr_add_def ptr_diff_def)

text \<open>
  C9.  The specification asks that the fast raw-byte branch and the generic per-element branch
  of \<open>block::copy\<close> give the same destination contents and the same return value for
  every range.  The code diverges for large ranges: for \<open>2 ^ 32\<close> elements of 8 bytes at
  aligned addresses the generic branch (chosen when \<open>__CUDA_ARCH__ < 200\<close>) copies the
  range, the fast branch copies nothing.
\<close>

theorem copy_branches_at_large_size:
  "group_copy 200 True \<lparr>block_index = 0, thread_index = 0, block_dimension = 4\<rparr>
      8 (2 ^ 35) (2 ^ 36) (2 ^ 36) marked_memory
   \<noteq> group_copy 199 True \<lparr>block_index = 0, thread_index = 0, block_dimension = 4\<rparr>
      8 (2 ^ 35) (2 ^ 36) (2 ^ 36) marked_memory"
proof -
  let ?ctx = "\<lparr>block_index = 0, thread_index = 0, block_dimension = 4\<rparr>"
  have p: "ptr_add 8 (2 ^ 35) (2 ^ 32) = 2 ^ 36" "(2::nat) ^ 35 + 2 ^ 35 = 2 ^ 36"
    by (simp_all add: ptr_add_def)
  have "group_copy 199 True ?ctx 8 (2 ^ 35) (ptr_add 8 (2 ^ 35) (2 ^ 32)) (2 ^ 36) marked_memory
        = Some (replicate (block_dimension ?ctx) (ptr_add 8 (2 ^ 36) (2 ^ 32)),
                copy_on {..<2 ^ 32 * 8} (2 ^ 36) (2 ^ 35) marked_memory)"
    by (rule group_copy_effect) simp_all
  then have g: "group_copy 199 True ?ctx 8 (2 ^ 35) (2 ^ 36) (2 ^ 36) marked_memory
        = Some (replicate (block_dimension ?ctx) (ptr_add 8 (2 ^ 36) (2 ^ 32)),
                copy_on {..<2 ^ 32 * 8} (2 ^ 36) (2 ^ 35) marked_memory)"
    by (simp only: p)
  have "copy_on {..<2 ^ 32 * 8} (2 ^ 36) (2 ^ 35) marked_memory (2 ^ 36) \<noteq> marked_memory (2 ^ 36)"
    by (simp add: copy_on_def marked_memory_def)
  then have ne: "copy_on {..<2 ^ 32 * 8} (2 ^ 36) (2 ^ 35) marked_memory \<noteq> marked_memory"
    by metis
  have f: "group_copy 200 True ?ctx 8 (2 ^ 35) (2 ^ 36) (2 ^ 36) marked_memory
             = Some (replicate (block_dimension ?ctx) (2 ^ 36 + 2 ^ 35), marked_memory)"
    using group_copy_narrowed[of "2 ^ 36" "2 ^ 35" ?ctx marked_memory] by (simp only: p) simp
  show ?thesis
    unfolding f g using ne by simp
qed

text \<open>
  Where the 32-bit counters reach, the branches agree.  For every trivially copyable
  element type over contiguous memory and every range \<open>[first, last)\<close> whose byte length
  plus \<open>block_dimension\<close> is at most \<open>2 ^ 32\<close> (destination not overlapping the source),
  the fast raw-byte branch and the generic per-element branch of \<open>block::copy\<close> leave
  identical memories and return the same \<open>result + (last - first)\<close> in every lane; so
  whichever branch the compile-time dispatch takes, on whichever architecture, the
  result is the same.
\<close>

theorem copy_branches_agree:
  assumes "0 < sizeof_T" and "0 < block_dimension ctx"
    and "first \<le> last'" and "sizeof_T dvd (last' - first)"
    and "result + (last' - first) \<le> first \<or> last' \<le> result"
    and "(last' - first) + block_dimension ctx \<le> 2 ^ 32"
  shows "run_block (\<lambda>t. dispatch_copy_true_type (ctx\<lparr>thread_index := t\<rparr>) sizeof_T first last' result)
             [0..<block_dimension ctx] mem
           = run_block (\<lambda>t. dispatch_copy_false_type (ctx\<lparr>thread_index := t\<rparr>) sizeof_T first last' result)
               [0..<block_dimension ctx] mem
       \<and> group_copy cuda_arch is_trivial_copy ctx sizeof_T first last' result mem
           = run_block (\<lambda>t. dispatch_copy_false_type (ctx\<lparr>thread_index := t\<rparr>) sizeof_T first last' result)
               [0..<block_dimension ctx] mem
       \<and> (\<exists>mem'. group_copy cuda_arch is_trivial_copy ctx sizeof_T first last' result mem
                   = Some (replicate (block_dimension ctx)
                             (ptr_add sizeof_T result (ptr_diff sizeof_T last' first)), mem'))"
proof -
  from assms(4) obtain n where n: "last' - first = n * sizeof_T"
    by (auto simp: dvd_def mult.commute)
  with assms(3) have l: "last' = ptr_add sizeof_T first n"
    by (simp add: ptr_add_def)
  have d: "ptr_diff sizeof_T last' first = n"
    using assms(1) by (simp add: l ptr_diff_ptr_add)
  have e: "first + n * sizeof_T = last'"
    using l by (simp add: ptr_add_def)
  have any: "\<And>arch triv.
        group_copy arch triv ctx sizeof_T first (ptr_add sizeof_T first n) result mem
          = Some (replicate (block_dimension ctx) (ptr_add sizeof_T result n),
                  copy_on {..<n * sizeof_T} result first mem)"
    using assms(1,2,5,6) n e by (intro group_copy_effect) auto
  have t: "run_block (\<lambda>t. dispatch_copy_true_type (ctx\<lparr>thread_index := t\<rparr>) sizeof_T first last' result)
             [0..<block_dimension ctx] mem
           = group_copy 200 True ctx sizeof_T first last' result mem"
    by (simp add: group_copy_def block_copy_fast)
  have f: "run_block (\<lambda>t. dispatch_copy_false_type (ctx\<lparr>thread_index := t\<rparr>) sizeof_T first last' result)
             [0..<block_dimension ctx] mem
           = group_copy 0 False ctx sizeof_T first last' result mem"
    by (simp add: group_copy_def block_copy_generic)
  show ?thesis
    unfolding t f by (simp add: l any d[unfolded l])
qed

theorem copy_branches_agree_witness:
  "group_copy 200 True \<lparr>block_index = 0, thread_index = 0, block_dimension = 4\<rparr>
      4 100 140 16 (\<lambda>a. a)
     = run_block (\<lambda>t. dispatch_copy_false_type
                        (\<lparr>block_index = 0, thread_index = 0, block_dimension = 4\<rparr>\<lparr>thread_index := t\<rparr>)
                        4 100 140 16)
         [0..<4] (\<lambda>a. a)
   \<and> map_option fst
        (group_copy 200 True \<lparr>block_index = 0, thread_index = 0, block_dimension = 4\<rparr>
           4 100 140 16 (\<lambda>a. a))
       = Some (replicate 4 56)"
proof -
  let ?c = "\<lparr>block_index = 0, thread_index = 0, block_dimension = 4\<rparr>"
  have p: "0 < (4::nat)" "0 < block_dimension ?c" "(100::nat) \<le> 140" "(4::nat) dvd 140 - 100"
    "(16::nat) + (140 - 100) \<le> 100 \<or> (140::nat) \<le> 16" "(140::nat) - 100 + block_dimension ?c \<le> 2 ^ 32"
    by simp_all
  from copy_branches_agree[of 4 ?c 100 140 16 "\<lambda>a. a" 200 True, OF p]
  obtain mem' where
    a: "group_copy 200 True ?c 4 100 140 16 (\<lambda>a. a)
          = run_block (\<lambda>t. dispatch_copy_false_type (?c\<lparr>thread_index := t\<rparr>) 4 100 140 16)
              [0..<block_dimension ?c] (\<lambda>a. a)"
    and b: "group_copy 200 True ?c 4 100 140 16 (\<lambda>a. a)
          = Some (replicate (block_dimension ?c) (ptr_add 4 16 (ptr_diff 4 140 100)), mem')"
    by blast
  have e: "ptr_add 4 16 (ptr_diff 4 140 100) = 56"
    by (simp add: ptr_add_def ptr_diff_def)
  have c: "map_option fst (group_copy 200 True ?c 4 100 140 16 (\<lambda>a. a)) = Some (replicate 4 56)"
    by (subst b) (simp add: e)
  have "group_copy 200 True ?c 4 100 140 16 (\<lambda>a. a)
          = run_block (\<lambda>t. dispatch_copy_false_type (?c\<lparr>thread_index := t\<rparr>) 4 100 140 16)
              [0..<4] (\<lambda>a. a)"
    by (subst a) simp
  then show ?thesis using c by (rule conjI)
qed


section \<open>Results for \<open>copy_if.inl\<close>\<close>

text \<open>
  C1.  For every input range \<open>[first, last)\<close>, stencil sequence and predicate, \<open>copy_if\<close>
  returns, and it has written to \<open>output, output + 1, \<dots>\<close> exactly the input elements at
  the positions \<open>p\<close> of \<open>[first, last)\<close> for which the predicate holds of the stencil
  element of \<open>p\<close>, in the order of the input: the output sequence is the
  predicate-satisfying subsequence of the input.  No other cell of the output store
  changes.  This holds for every decomposition of the index domain into consecutive
  intervals and every order in which the launch runs the blocks.
\<close>

theorem copy_if_order_preserving:
  assumes "first \<le> last'"
    and "is_decomposition (last' - first) (default_decomposition (last' - first))"
    and "set (schedule (length (default_decomposition (last' - first))))
           = {0..<length (default_decomposition (last' - first))}"
  shows "\<exists>ret out_mem'.
           copy_if schedule default_decomposition input_mem first last' stencil_mem stencil
             out_mem output pred = Some (ret, out_mem')
           \<and> map out_mem' [output..<ret]
               = map input_mem
                   (filter (\<lambda>p. pred (stencil_mem (stencil + (p - first)))) [first..<last'])
           \<and> (\<forall>a. a < output \<or> ret \<le> a \<longrightarrow> out_mem' a = out_mem a)"
proof -
  let ?xs = "map input_mem
               (filter (\<lambda>p. pred (stencil_mem (stencil + (p - first)))) [first..<last'])"
  have "map (store_list out_mem output ?xs) [output..<output + length ?xs] = ?xs"
    by (rule store_list_map)
  moreover have "\<forall>a. a < output \<or> output + length ?xs \<le> a
                   \<longrightarrow> store_list out_mem output ?xs a = out_mem a"
    by (simp add: store_list_frame)
  moreover have "copy_if schedule default_decomposition input_mem first last' stencil_mem stencil
                   out_mem output pred
                 = Some (output + length ?xs, store_list out_mem output ?xs)"
    using copy_if_result[of first last' default_decomposition schedule input_mem stencil_mem
        stencil out_mem "output" pred] assms
    by simp
  ultimately show ?thesis
    by simp
qed

theorem copy_if_order_preserving_witness:
  "\<exists>out_mem'.
     copy_if last_block_first two_intervals
       (\<lambda>a. [3, 0, 5, 0, 7, 0, 2 :: nat] ! (a - 100)) 100 107
       (\<lambda>a. [1, 0, 1, 0, 1, 0, 1 :: nat] ! (a - 50)) 50
       (\<lambda>a. 99) 10 (\<lambda>x. x \<noteq> 0) = Some (14, out_mem')
     \<and> map out_mem' [10..<14] = [3, 5, 7, 2]
     \<and> map out_mem' [8..<10] = [99, 99] \<and> map out_mem' [14..<16] = [99, 99]"
proof -
  have p: "(100::nat) \<le> 107" "is_decomposition (107 - 100) (two_intervals (107 - 100))"
    "set (last_block_first (length (two_intervals (107 - 100))))
       = {0..<length (two_intervals (107 - 100))}"
    by (simp_all add: is_decomposition_two_intervals last_block_first_covers)
  have f: "filter (\<lambda>p. [1, 0, 1, 0, 1, 0, 1 :: nat] ! (50 + (p - 100) - 50) \<noteq> 0) [100..<107]
             = [100, 102, 104, 106]"
    by (simp add: upt_conv_Cons)
  from copy_if_order_preserving[of 100 107 two_intervals last_block_first
      "\<lambda>a. [3, 0, 5, 0, 7, 0, 2 :: nat] ! (a - 100)"
      "\<lambda>a. [1, 0, 1, 0, 1, 0, 1 :: nat] ! (a - 50)" 50 "\<lambda>a. 99" 10 "\<lambda>x. x \<noteq> 0", OF p]
  obtain ret out_mem' where
    r: "copy_if last_block_first two_intervals
          (\<lambda>a. [3, 0, 5, 0, 7, 0, 2 :: nat] ! (a - 100)) 100 107
          (\<lambda>a. [1, 0, 1, 0, 1, 0, 1 :: nat] ! (a - 50)) 50
          (\<lambda>a. 99) 10 (\<lambda>x. x \<noteq> 0) = Some (ret, out_mem')"
    and m: "map out_mem' [10..<ret] = [3, 5, 7, 2]"
    and fr: "\<forall>a. a < 10 \<or> ret \<le> a \<longrightarrow> out_mem' a = 99"
    by (auto simp: f)
  from m have "length (map out_mem' [10..<ret]) = length [3, 5, 7, 2 :: nat]" by simp
  then have ret: "ret = 14" by simp
  have "map out_mem' [8..<10] = [99, 99]" "map out_mem' [14..<16] = [99, 99]"
    using fr ret by (simp_all add: upt_conv_Cons)
  with r m ret show ?thesis by (intro exI[of _ out_mem']) simp
qed

text \<open>
  C2.  For every input range \<open>[first, last)\<close>, the empty range included, \<open>copy_if\<close>
  returns \<open>output + k\<close>, where \<open>k\<close> is the number of positions \<open>p\<close> of \<open>[first, last)\<close>
  for which the predicate holds of the stencil element of \<open>p\<close>.  When \<open>first = last\<close> it
  returns \<open>output\<close> and leaves the output store as it is.  Otherwise \<open>k\<close> is the last entry
  of the scanned per-block counts.  The input size is arbitrary: below, equal to or above
  the number of threads of a block.
\<close>

theorem copy_if_count:
  assumes "first \<le> last'"
    and "is_decomposition (last' - first) (default_decomposition (last' - first))"
    and "set (schedule (length (default_decomposition (last' - first))))
           = {0..<length (default_decomposition (last' - first))}"
  shows "(\<exists>out_mem'.
            copy_if schedule default_decomposition input_mem first last' stencil_mem stencil
              out_mem output pred
            = Some (output + length (filter (\<lambda>p. pred (stencil_mem (stencil + (p - first))))
                                       [first..<last']),
                    out_mem'))
       \<and> length (filter (\<lambda>p. pred (stencil_mem (stencil + (p - first)))) [first..<last'])
           = card {p. first \<le> p \<and> p < last' \<and> pred (stencil_mem (stencil + (p - first)))}
       \<and> (first = last' \<longrightarrow>
            copy_if schedule default_decomposition input_mem first last' stencil_mem stencil
              out_mem output pred = Some (output, out_mem))
       \<and> (first \<noteq> last' \<longrightarrow>
            inclusive_scan
              (reduce_intervals (\<lambda>k. predicate_to_integral pred (stencil_mem (stencil + k)))
                 (default_decomposition (last' - first)))
              ! (length (default_decomposition (last' - first)) - 1)
            = length (filter (\<lambda>p. pred (stencil_mem (stencil + (p - first)))) [first..<last']))"
proof -
  let ?P = "\<lambda>p. pred (stencil_mem (stencil + (p - first)))"
  have "length (filter ?P [first..<last']) = card ({p. ?P p} \<inter> set [first..<last'])"
    by (rule distinct_length_filter) simp
  also have "{p. ?P p} \<inter> set [first..<last'] = {p. first \<le> p \<and> p < last' \<and> ?P p}"
    by auto
  finally have card: "length (filter ?P [first..<last']) = card {p. first \<le> p \<and> p < last' \<and> ?P p}" .
  have empty: "first = last' \<longrightarrow>
      copy_if schedule default_decomposition input_mem first last' stencil_mem stencil
        out_mem output pred = Some (output, out_mem)"
    by (simp add: copy_if_def)
  have "first \<noteq> last' \<longrightarrow>
      inclusive_scan
        (reduce_intervals (\<lambda>k. predicate_to_integral pred (stencil_mem (stencil + k)))
           (default_decomposition (last' - first)))
        ! (length (default_decomposition (last' - first)) - 1)
      = length (filter ?P [first..<last'])"
    using offsets_last[OF binary_predicate_to_integral, of "default_decomposition (last' - first)"
        "last' - first" pred "\<lambda>k. stencil_mem (stencil + k)"]
      assms(2) count_as_filter[OF assms(1), of pred stencil_mem stencil]
    by (simp add: is_decomposition_def)
  with card empty show ?thesis
    using copy_if_result[of first last' default_decomposition schedule input_mem stencil_mem
        stencil out_mem "output" pred] assms
    by simp
qed

theorem copy_if_count_witness:
  "(\<exists>out_mem'. copy_if last_block_first two_intervals (\<lambda>a. a) 100 107 (\<lambda>a. a) 50 (\<lambda>a. 0) 10
                 (\<lambda>x. True) = Some (10 + 7, out_mem'))
   \<and> (\<exists>out_mem'. copy_if last_block_first two_intervals (\<lambda>a. a) 100 356 (\<lambda>a. a) 50 (\<lambda>a. 0) 10
                 (\<lambda>x. True) = Some (10 + 256, out_mem'))
   \<and> (\<exists>out_mem'. copy_if last_block_first two_intervals (\<lambda>a. a) 100 1700 (\<lambda>a. a) 50 (\<lambda>a. 0) 10
                 (\<lambda>x. True) = Some (10 + 1600, out_mem'))
   \<and> (\<exists>out_mem'. copy_if last_block_first two_intervals (\<lambda>a. a) 100 1700 (\<lambda>a. a) 50 (\<lambda>a. 0) 10
                 (\<lambda>x. False) = Some (10, out_mem'))
   \<and> copy_if last_block_first two_intervals (\<lambda>a. a) 100 100 (\<lambda>a. a) 50 (\<lambda>a. 0) 10
       (\<lambda>x. True) = Some (10, \<lambda>a. 0)"
  using
    copy_if_count[of 100 107 two_intervals last_block_first "\<lambda>a. a" "\<lambda>a. a" 50 "\<lambda>a. 0" 10 "\<lambda>x. True"]
    copy_if_count[of 100 356 two_intervals last_block_first "\<lambda>a. a" "\<lambda>a. a" 50 "\<lambda>a. 0" 10 "\<lambda>x. True"]
    copy_if_count[of 100 1700 two_intervals last_block_first "\<lambda>a. a" "\<lambda>a. a" 50 "\<lambda>a. 0" 10 "\<lambda>x. True"]
    copy_if_count[of 100 1700 two_intervals last_block_first "\<lambda>a. a" "\<lambda>a. a" 50 "\<lambda>a. 0" 10 "\<lambda>x. False"]
    copy_if_count[of 100 100 two_intervals last_block_first "\<lambda>a. a" "\<lambda>a. a" 50 "\<lambda>a. 0" 10 "\<lambda>x. True"]
  by (simp add: is_decomposition_two_intervals last_block_first_covers del: upt_rec_numeral)


text \<open>
  C4.  In the final partial block of an interval (fewer positions left than the block
  has threads) every thread whose position is at or beyond the interval's end puts the
  flag 0 into the scan, whatever the stencil holds there, and writes nothing; the block
  writes exactly the flagged elements below the interval's end, in order.  So the
  closure as a whole writes the flagged elements of its interval and nothing else,
  whether or not the interval's length is a multiple of the number of threads.
\<close>

theorem partial_block_boundary:
  assumes "0 < block_dimension ctx" and "binary_flags stencil"
    and "base \<le> interval_end range'"
    and "interval_end range' < base + block_dimension ctx"
  shows "map (\<lambda>c. read_data_partial c stencil range' base) (block_threads ctx)
           = map (\<lambda>t. if base + t < interval_end range' then stencil (base + t) else 0)
               [0..<block_dimension ctx]
       \<and> (\<forall>t sdata m. interval_end range' \<le> base + t \<longrightarrow>
             read_data_partial (ctx\<lparr>thread_index := t\<rparr>) stencil range' base = 0
             \<and> write_data (ctx\<lparr>thread_index := t\<rparr>) input base output sdata
                 (read_data_partial (ctx\<lparr>thread_index := t\<rparr>) stencil range' base) m = m)
       \<and> process_partial_block ctx input stencil range' base output out_mem
           = store_list out_mem output (selected input stencil base (interval_end range'))
       \<and> (interval_begin (decomp ! block_index ctx) \<le> interval_end (decomp ! block_index ctx) \<longrightarrow>
            copy_if_intervals_closure input stencil offsets decomp output ctx out_mem
              = Some (store_list out_mem (advance_output ctx offsets output)
                        (selected input stencil (interval_begin (decomp ! block_index ctx))
                           (interval_end (decomp ! block_index ctx)))))"
proof -
  have a: "map (\<lambda>c. read_data_partial c stencil range' base) (block_threads ctx)
           = map (\<lambda>t. if base + t < interval_end range' then stencil (base + t) else 0)
               [0..<block_dimension ctx]"
    by (simp add: block_threads_def read_data_partial_def comp_def)
  have b: "\<forall>t sdata m. interval_end range' \<le> base + t \<longrightarrow>
             read_data_partial (ctx\<lparr>thread_index := t\<rparr>) stencil range' base = 0
             \<and> write_data (ctx\<lparr>thread_index := t\<rparr>) input base output sdata
                 (read_data_partial (ctx\<lparr>thread_index := t\<rparr>) stencil range' base) m = m"
    by (simp add: read_data_partial_def write_data_def)
  have c: "process_partial_block ctx input stencil range' base output out_mem
           = store_list out_mem output (selected input stencil base (interval_end range'))"
    by (rule process_partial_block_effect[OF assms(2,1,3,4)])
  have d: "interval_begin (decomp ! block_index ctx) \<le> interval_end (decomp ! block_index ctx) \<longrightarrow>
            copy_if_intervals_closure input stencil offsets decomp output ctx out_mem
              = Some (store_list out_mem (advance_output ctx offsets output)
                        (selected input stencil (interval_begin (decomp ! block_index ctx))
                           (interval_end (decomp ! block_index ctx))))"
    using closure_effect[OF assms(2,1), of decomp input offsets "output" out_mem] by simp
  show ?thesis
    by (intro conjI) (rule a b c d)+
qed

theorem partial_block_boundary_witness:
  "map (\<lambda>c. read_data_partial c (\<lambda>k. if 4 \<le> k then 1 else 0)
               \<lparr>interval_begin = 0, interval_end = 5\<rparr> 4)
     (block_threads \<lparr>block_index = 0, thread_index = 0, block_dimension = 4\<rparr>) = [1, 0, 0, 0]
   \<and> write_data \<lparr>block_index = 0, thread_index = 1, block_dimension = 4\<rparr> (\<lambda>k. 100 + k) 4 10
       [1, 2, 3, 4]
       (read_data_partial \<lparr>block_index = 0, thread_index = 1, block_dimension = 4\<rparr>
          (\<lambda>k. if 4 \<le> k then 1 else 0) \<lparr>interval_begin = 0, interval_end = 5\<rparr> 4)
       (\<lambda>a. 0)
     = (\<lambda>a. 0)
   \<and> map (process_partial_block \<lparr>block_index = 0, thread_index = 0, block_dimension = 4\<rparr>
            (\<lambda>k. 100 + k) (\<lambda>k. if 4 \<le> k then 1 else 0)
            \<lparr>interval_begin = 0, interval_end = 5\<rparr> 4 10 (\<lambda>a. 0)) [10..<13]
     = [104, 0, 0]
   \<and> map_option (\<lambda>m. map m [10..<13])
       (copy_if_intervals_closure (\<lambda>k. 100 + k) (\<lambda>k. if 4 \<le> k then 1 else 0) []
          [\<lparr>interval_begin = 0, interval_end = 5\<rparr>] 10
          \<lparr>block_index = 0, thread_index = 0, block_dimension = 4\<rparr> (\<lambda>a. 0))
     = Some [104, 0, 0]"
proof -
  let ?ctx = "\<lparr>block_index = 0, thread_index = 0, block_dimension = 4\<rparr>"
  let ?st = "\<lambda>k::nat. if 4 \<le> k then 1 else 0 :: nat"
  let ?r = "\<lparr>interval_begin = 0, interval_end = 5\<rparr>"
  have p: "0 < block_dimension ?ctx" "binary_flags ?st" "4 \<le> interval_end ?r"
    "interval_end ?r < 4 + block_dimension ?ctx"
    by (simp_all add: binary_flags_def)
  have s: "selected (\<lambda>k. 100 + k) ?st 4 5 = [104]" "selected (\<lambda>k. 100 + k) ?st 0 5 = [104]"
    by (simp_all add: selected_def upt_conv_Cons)
  note w = partial_block_boundary[of ?ctx ?st 4 ?r "\<lambda>k. 100 + k" 10 "\<lambda>a. 0" "[?r]" "[]", OF p]
  note w1 = w[THEN conjunct1]
  note w2 = w[THEN conjunct2, THEN conjunct1, rule_format, of 1 "[1, 2, 3, 4]" "\<lambda>a. 0"]
  note w3 = w[THEN conjunct2, THEN conjunct2, THEN conjunct1]
  note w4 = w[THEN conjunct2, THEN conjunct2, THEN conjunct2]
  have a: "map (\<lambda>c. read_data_partial c ?st ?r 4) (block_threads ?ctx) = [1, 0, 0, 0]"
    using w1 by (simp add: upt_conv_Cons)
  have b: "write_data \<lparr>block_index = 0, thread_index = 1, block_dimension = 4\<rparr> (\<lambda>k. 100 + k) 4 10
             [1, 2, 3, 4]
             (read_data_partial \<lparr>block_index = 0, thread_index = 1, block_dimension = 4\<rparr> ?st ?r 4)
             (\<lambda>a. 0) = (\<lambda>a. 0)"
    using w2[THEN conjunct2] by simp
  have c: "map (process_partial_block ?ctx (\<lambda>k. 100 + k) ?st ?r 4 10 (\<lambda>a. 0)) [10..<13]
             = [104, 0, 0]"
    using w3 by (simp add: s store_list_def)
  have d: "map_option (\<lambda>m. map m [10..<13])
             (copy_if_intervals_closure (\<lambda>k. 100 + k) ?st [] [?r] 10 ?ctx (\<lambda>a. 0))
           = Some [104, 0, 0]"
    using w4 by (simp add: s store_list_def advance_output_def)
  show ?thesis
    by (intro conjI) (rule a b c d)+
qed

text \<open>
  C7.  In the scatter pass the output base of a block is the output itself for block 0,
  where the offset lookup is skipped, and otherwise the output advanced by the entry of
  the scanned per-block counts at \<open>block_index - 1\<close>, the inclusive-scan value of the
  previous block; that value is the number of predicate-true elements in the intervals
  of all prior blocks.
\<close>

theorem group_output_base:
  assumes "block_index ctx < length decomp"
  shows "(block_index ctx = 0 \<longrightarrow> advance_output ctx offsets output = output)
       \<and> (block_index ctx \<noteq> 0 \<longrightarrow>
            advance_output ctx offsets output = output + offsets ! (block_index ctx - 1))
       \<and> (block_index ctx \<noteq> 0 \<longrightarrow>
            inclusive_scan
              (reduce_intervals (\<lambda>k. predicate_to_integral pred (stencil_mem (stencil + k))) decomp)
              ! (block_index ctx - 1)
            = sum_list (map (\<lambda>r. length (filter (\<lambda>k. pred (stencil_mem (stencil + k)))
                                            [interval_begin r..<interval_end r]))
                          (take (block_index ctx) decomp)))
       \<and> advance_output ctx
           (inclusive_scan
              (reduce_intervals (\<lambda>k. predicate_to_integral pred (stencil_mem (stencil + k))) decomp))
           output
         = output + sum_list (map (\<lambda>r. length (filter (\<lambda>k. pred (stencil_mem (stencil + k)))
                                                  [interval_begin r..<interval_end r]))
                                (take (block_index ctx) decomp))"
proof -
  let ?flags = "\<lambda>k. predicate_to_integral pred (stencil_mem (stencil + k))"
  let ?cnt = "\<lambda>r. length (filter (\<lambda>k. pred (stencil_mem (stencil + k)))
                             [interval_begin r..<interval_end r])"
  have cf: "(\<lambda>r. count_flags ?flags (interval_begin r) (interval_end r)) = ?cnt"
    by (rule ext) (simp add: count_flags_def predicate_flag_pos)
  have prev: "block_index ctx \<noteq> 0 \<longrightarrow>
      inclusive_scan (reduce_intervals ?flags decomp) ! (block_index ctx - 1)
        = sum_list (map ?cnt (take (block_index ctx) decomp))"
  proof
    assume nz: "block_index ctx \<noteq> 0"
    then have "block_index ctx - 1 < length decomp" "Suc (block_index ctx - 1) = block_index ctx"
      using assms by simp_all
    then show "inclusive_scan (reduce_intervals ?flags decomp) ! (block_index ctx - 1)
                 = sum_list (map ?cnt (take (block_index ctx) decomp))"
      using scan_counts_nth[OF binary_predicate_to_integral, of "block_index ctx - 1" decomp pred
          "\<lambda>k. stencil_mem (stencil + k)"]
      by (simp add: cf)
  qed
  then show ?thesis
    by (simp add: advance_output_def)
qed

theorem group_output_base_witness:
  "advance_output \<lparr>block_index = 0, thread_index = 0, block_dimension = 4\<rparr> [2, 4] 10 = 10
   \<and> advance_output \<lparr>block_index = 1, thread_index = 0, block_dimension = 4\<rparr> [2, 4] 10 = 12
   \<and> inclusive_scan
       (reduce_intervals
          (\<lambda>k. predicate_to_integral (\<lambda>x. x \<noteq> 0) ([1, 0, 1, 0, 1, 0, 1 :: nat] ! (50 + k - 50)))
          (two_intervals 7)) ! 0 = 2
   \<and> advance_output \<lparr>block_index = 1, thread_index = 0, block_dimension = 4\<rparr>
       (inclusive_scan
          (reduce_intervals
             (\<lambda>k. predicate_to_integral (\<lambda>x. x \<noteq> 0) ([1, 0, 1, 0, 1, 0, 1 :: nat] ! (50 + k - 50)))
             (two_intervals 7))) 10 = 12"
  using
    group_output_base[of "\<lparr>block_index = 0, thread_index = 0, block_dimension = 4\<rparr>"
      "two_intervals 7" "[2, 4]" 10 "\<lambda>x. x \<noteq> 0" "\<lambda>a. [1, 0, 1, 0, 1, 0, 1 :: nat] ! (a - 50)" 50]
    group_output_base[of "\<lparr>block_index = 1, thread_index = 0, block_dimension = 4\<rparr>"
      "two_intervals 7" "[2, 4]" 10 "\<lambda>x. x \<noteq> 0" "\<lambda>a. [1, 0, 1, 0, 1, 0, 1 :: nat] ! (a - 50)" 50]
  by (simp add: two_intervals_def upt_conv_Cons)

text \<open>
  C8.  \<open>copy_if\<close> is deterministic: what it returns and what it leaves in the output
  range depend on the input range, the stencil range and the predicate only.  Two
  invocations with the same arguments give the same returned iterator and the same
  output store, in whatever order each launch runs its blocks; and the returned iterator
  and the contents of the output range are the same even when the two invocations start
  from different output stores or from memories that differ outside the input and
  stencil ranges.
\<close>

theorem copy_if_deterministic:
  assumes "first \<le> last'"
    and "is_decomposition (last' - first) (default_decomposition (last' - first))"
    and "set (schedule1 (length (default_decomposition (last' - first))))
           = {0..<length (default_decomposition (last' - first))}"
    and "set (schedule2 (length (default_decomposition (last' - first))))
           = {0..<length (default_decomposition (last' - first))}"
    and "\<forall>p. first \<le> p \<and> p < last' \<longrightarrow> input_mem2 p = input_mem1 p"
    and "\<forall>k. k < last' - first \<longrightarrow> stencil_mem2 (stencil + k) = stencil_mem1 (stencil + k)"
  shows "copy_if schedule1 default_decomposition input_mem1 first last' stencil_mem1 stencil
           out_mem output pred
         = copy_if schedule2 default_decomposition input_mem1 first last' stencil_mem1 stencil
             out_mem output pred
       \<and> (\<exists>ret m1 m2.
            copy_if schedule1 default_decomposition input_mem1 first last' stencil_mem1 stencil
              out_mem1 output pred = Some (ret, m1)
            \<and> copy_if schedule2 default_decomposition input_mem2 first last' stencil_mem2 stencil
                out_mem2 output pred = Some (ret, m2)
            \<and> map m1 [output..<ret] = map m2 [output..<ret])"
proof -
  let ?P1 = "\<lambda>p. pred (stencil_mem1 (stencil + (p - first)))"
  let ?P2 = "\<lambda>p. pred (stencil_mem2 (stencil + (p - first)))"
  have f: "filter ?P2 [first..<last'] = filter ?P1 [first..<last']"
  proof (rule filter_cong[OF refl])
    fix p assume "p \<in> set [first..<last']"
    then have "p - first < last' - first" by auto
    then show "?P2 p = ?P1 p" using assms(6) by simp
  qed
  have m: "map input_mem2 (filter ?P1 [first..<last']) = map input_mem1 (filter ?P1 [first..<last'])"
    using assms(5) by (intro map_cong) auto
  let ?xs = "map input_mem1 (filter ?P1 [first..<last'])"
  have r1: "\<And>om. copy_if schedule1 default_decomposition input_mem1 first last' stencil_mem1 stencil
              om output pred
            = Some (output + length ?xs, store_list om output ?xs)"
    using copy_if_result[of first last' default_decomposition schedule1 input_mem1 stencil_mem1
        stencil _ "output" pred] assms(1,2,3)
    by simp
  have r2: "\<And>om. copy_if schedule2 default_decomposition input_mem1 first last' stencil_mem1 stencil
              om output pred
            = Some (output + length ?xs, store_list om output ?xs)"
    using copy_if_result[of first last' default_decomposition schedule2 input_mem1 stencil_mem1
        stencil _ "output" pred] assms(1,2,4)
    by simp
  have r3: "copy_if schedule2 default_decomposition input_mem2 first last' stencil_mem2 stencil
              out_mem2 output pred
            = Some (output + length ?xs, store_list out_mem2 output ?xs)"
    using copy_if_result[of first last' default_decomposition schedule2 input_mem2 stencil_mem2
        stencil out_mem2 "output" pred] assms(1,2,4)
    by (simp add: f m)
  have c1: "copy_if schedule1 default_decomposition input_mem1 first last' stencil_mem1 stencil
              out_mem output pred
            = copy_if schedule2 default_decomposition input_mem1 first last' stencil_mem1 stencil
                out_mem output pred"
    by (simp only: r1 r2)
  have c2: "\<exists>ret m1 m2.
            copy_if schedule1 default_decomposition input_mem1 first last' stencil_mem1 stencil
              out_mem1 output pred = Some (ret, m1)
            \<and> copy_if schedule2 default_decomposition input_mem2 first last' stencil_mem2 stencil
                out_mem2 output pred = Some (ret, m2)
            \<and> map m1 [output..<ret] = map m2 [output..<ret]"
    by (intro exI[of _ "output + length ?xs"] exI[of _ "store_list out_mem1 output ?xs"]
          exI[of _ "store_list out_mem2 output ?xs"] conjI)
       (simp_all only: r1 r3 store_list_map)
  from c1 c2 show ?thesis by (rule conjI)
qed

theorem copy_if_deterministic_witness:
  "copy_if last_block_first two_intervals
       (\<lambda>a. [3, 0, 5, 0, 7, 0, 2 :: nat] ! (a - 100)) 100 107
       (\<lambda>a. [1, 0, 1, 0, 1, 0, 1 :: nat] ! (a - 50)) 50
       (\<lambda>a. 99) 10 (\<lambda>x. x \<noteq> 0)
     = copy_if (\<lambda>k. [0..<k]) two_intervals
         (\<lambda>a. [3, 0, 5, 0, 7, 0, 2 :: nat] ! (a - 100)) 100 107
         (\<lambda>a. [1, 0, 1, 0, 1, 0, 1 :: nat] ! (a - 50)) 50
         (\<lambda>a. 99) 10 (\<lambda>x. x \<noteq> 0)
   \<and> (\<exists>ret m1 m2.
        copy_if last_block_first two_intervals
          (\<lambda>a. [3, 0, 5, 0, 7, 0, 2 :: nat] ! (a - 100)) 100 107
          (\<lambda>a. [1, 0, 1, 0, 1, 0, 1 :: nat] ! (a - 50)) 50
          (\<lambda>a. 99) 10 (\<lambda>x. x \<noteq> 0) = Some (ret, m1)
        \<and> copy_if (\<lambda>k. [0..<k]) two_intervals
            (\<lambda>a. if a < 107 then [3, 0, 5, 0, 7, 0, 2 :: nat] ! (a - 100) else 1) 100 107
            (\<lambda>a. if a < 57 then [1, 0, 1, 0, 1, 0, 1 :: nat] ! (a - 50) else 1) 50
            (\<lambda>a. 0) 10 (\<lambda>x. x \<noteq> 0) = Some (ret, m2)
        \<and> map m1 [10..<ret] = map m2 [10..<ret])"
proof -
  have p: "(100::nat) \<le> 107" "is_decomposition (107 - 100) (two_intervals (107 - 100))"
    "set (last_block_first (length (two_intervals (107 - 100))))
       = {0..<length (two_intervals (107 - 100))}"
    "set ((\<lambda>k. [0..<k]) (length (two_intervals (107 - 100))))
       = {0..<length (two_intervals (107 - 100))}"
    "\<forall>p. 100 \<le> p \<and> p < 107 \<longrightarrow>
       (\<lambda>a. if a < 107 then [3, 0, 5, 0, 7, 0, 2 :: nat] ! (a - 100) else 1) p
         = (\<lambda>a. [3, 0, 5, 0, 7, 0, 2 :: nat] ! (a - 100)) p"
    "\<forall>k. k < 107 - 100 \<longrightarrow>
       (\<lambda>a. if a < 57 then [1, 0, 1, 0, 1, 0, 1 :: nat] ! (a - 50) else 1) (50 + k)
         = (\<lambda>a. [1, 0, 1, 0, 1, 0, 1 :: nat] ! (a - 50)) (50 + k)"
    by (simp_all add: is_decomposition_two_intervals last_block_first_covers)
  show ?thesis
    by (rule copy_if_deterministic[of 100 107 two_intervals last_block_first "\<lambda>k. [0..<k]"
          "\<lambda>a. if a < 107 then [3, 0, 5, 0, 7, 0, 2 :: nat] ! (a - 100) else 1"
          "\<lambda>a. [3, 0, 5, 0, 7, 0, 2 :: nat] ! (a - 100)"
          "\<lambda>a. if a < 57 then [1, 0, 1, 0, 1, 0, 1 :: nat] ! (a - 50) else 1" 50
          "\<lambda>a. [1, 0, 1, 0, 1, 0, 1 :: nat] ! (a - 50)" "\<lambda>a. 99" 10 "\<lambda>x. x \<noteq> 0"
          "\<lambda>a. 99" "\<lambda>a. 0", OF p])
qed

end
